theory Spec2Isabelle
  imports Main "HOL-Library.Multiset"
begin

section \<open>Town Map Puzzle: the model\<close>

text \<open>
  A shallow embedding of \<^verbatim>\<open>TownMapPuzzle.py\<close>. The module-level globals of the script
  (\<^verbatim>\<open>pieces\<close>, \<^verbatim>\<open>slots\<close>, \<^verbatim>\<open>shuffled_tray\<close>, \<^verbatim>\<open>held_piece\<close>, \<^verbatim>\<open>drag_offset\<close>,
  \<^verbatim>\<open>complete\<close>, \<^verbatim>\<open>win_timer\<close>) and the local \<^verbatim>\<open>running\<close> of \<^verbatim>\<open>main\<close> form one state
  record; every handler of the event loop is a function from state to state. An uncaught
  Python exception ends the process, so a function that can raise returns
  \<open>error + state\<close> with \<open>Inl\<close> for the exception.
\<close>

subsection \<open>Layout constants (source lines 34--49)\<close>

definition SCREEN_W :: int where "SCREEN_W = 960"
definition SCREEN_H :: int where "SCREEN_H = 640"
definition COLS :: nat where "COLS = 3"
definition ROWS :: nat where "ROWS = 3"
definition TILE_SIZE :: int where "TILE_SIZE = 160"
definition BOARD_X :: int where "BOARD_X = 350"
definition BOARD_Y :: int where "BOARD_Y = (SCREEN_H - int ROWS * TILE_SIZE) div 2"
definition TRAY_X :: int where "TRAY_X = 10"
definition TRAY_Y :: int where "TRAY_Y = 10"
definition TRAY_W :: int where "TRAY_W = 320"
definition TRAY_H :: int where "TRAY_H = SCREEN_H - 20"
definition TRAY_COLS :: nat where "TRAY_COLS = 2"
definition TRAY_PAD :: int where "TRAY_PAD = 12"

subsection \<open>Exceptions\<close>

datatype error = IndexError | ImageLoadError | SystemExit

text \<open>Sequencing of two steps, the second of which runs only when the first did not raise.\<close>

definition and_then :: "error + 'a \<Rightarrow> ('a \<Rightarrow> error + 'b) \<Rightarrow> error + 'b" where
  "and_then m f = (case m of Inl e \<Rightarrow> Inl e | Inr x \<Rightarrow> f x)"

subsection \<open>Start-up: loading the picture (source lines 69--136)\<close>

text \<open>
  The only input of the start-up code is the file at \<^verbatim>\<open>MAP_IMAGE_PATH\<close>: it is absent, or
  present but not decodable, or a readable picture. \<^verbatim>\<open>os.path.exists\<close> is false exactly
  in the first case; \<^verbatim>\<open>pygame.image.load\<close> raises in the first two.
\<close>

datatype picture = Missing | Unreadable | Readable

datatype tile =
    Sliced nat nat int
  | Placeholder "nat \<times> nat \<times> nat" nat int

definition image_load :: "picture \<Rightarrow> error + unit" where
  "image_load pic = (case pic of Readable \<Rightarrow> Inr () | _ \<Rightarrow> Inl ImageLoadError)"

definition load_map_tiles :: "picture \<Rightarrow> int \<Rightarrow> nat \<Rightarrow> nat \<Rightarrow> error + tile list option" where
  "load_map_tiles pic tile_size cols rows =
     (if pic = Missing then Inr None
      else and_then (image_load pic) (\<lambda>_.
        Inr (Some (concat (map (\<lambda>row. map (\<lambda>col. Sliced col row tile_size) [0..<cols])
                               [0..<rows])))))"

definition FALLBACK_COLOURS :: "(nat \<times> nat \<times> nat) list" where
  "FALLBACK_COLOURS =
     [(100, 140, 190), (80, 170, 100), (190, 130, 80),
      (200, 80, 80), (170, 120, 200), (220, 100, 60),
      (90, 160, 180), (160, 150, 100), (110, 110, 170)]"

text \<open>The icons are single emoji; they are listed by Unicode code point.\<close>

definition FALLBACK_ICONS :: "nat list" where
  "FALLBACK_ICONS =
     [0x1F3DB, 0x1F333, 0x1F3EB, 0x1F3E5, 0x1F6D2, 0x1F692, 0x1F4DA, 0x1F3D8, 0x1F689]"

definition make_fallback_tile :: "nat \<Rightarrow> int \<Rightarrow> tile" where
  "make_fallback_tile index tile_size =
     Placeholder (FALLBACK_COLOURS ! (index mod length FALLBACK_COLOURS))
                 (FALLBACK_ICONS ! (index mod length FALLBACK_ICONS)) tile_size"

text \<open>
  Lines 123--136: the tiles are loaded, replaced by placeholders when the loader returned
  \<^verbatim>\<open>None\<close>, and then the reference image is loaded from the same path with no guard.
  The result is the list \<^verbatim>\<open>map_tiles\<close> with which the game starts, or the exception that
  ends the process before \<^verbatim>\<open>main\<close> is reached.
\<close>

definition startup :: "picture \<Rightarrow> error + tile list" where
  "startup pic =
     and_then (load_map_tiles pic TILE_SIZE COLS ROWS) (\<lambda>loaded.
       let map_tiles = (case loaded of
                          None \<Rightarrow> map (\<lambda>i. make_fallback_tile i TILE_SIZE) [0..<COLS * ROWS]
                        | Some ts \<Rightarrow> ts)
       in and_then (image_load pic) (\<lambda>_. Inr map_tiles))"

subsection \<open>Rectangles, surfaces, pieces, slots\<close>

record rect =
  left :: int
  top :: int
  width :: int
  height :: int

text \<open>\<^verbatim>\<open>pygame.Rect.collidepoint\<close>: the left and top edges are inside, the right and bottom are not.\<close>

definition collidepoint :: "rect \<Rightarrow> int \<times> int \<Rightarrow> bool" where
  "collidepoint r p =
     (left r \<le> fst p \<and> fst p < left r + width r \<and> top r \<le> snd p \<and> snd p < top r + height r)"

text \<open>
  A piece's image is a square surface made from one entry of \<^verbatim>\<open>map_tiles\<close>; the game logic
  depends only on which entry it is and on its side length.
\<close>

record surface =
  tile_of :: nat
  side :: int

definition map_tiles :: "nat \<Rightarrow> error + surface" where
  "map_tiles i = (if i < COLS * ROWS then Inr \<lparr>tile_of = i, side = TILE_SIZE\<rparr> else Inl IndexError)"

definition scale :: "surface \<Rightarrow> int \<Rightarrow> surface" where
  "scale img w = img\<lparr>side := w\<rparr>"

record piece =
  p_index :: nat
  p_image :: surface
  placed :: bool
  p_rect :: rect

record slot =
  s_index :: nat
  s_rect :: rect
  filled :: bool

definition Piece :: "nat \<Rightarrow> piece" where
  "Piece i = \<lparr>p_index = i, p_image = \<lparr>tile_of = i, side = TILE_SIZE\<rparr>, placed = False,
              p_rect = \<lparr>left = 0, top = 0, width = TILE_SIZE, height = TILE_SIZE\<rparr>\<rparr>"

definition Slot :: "nat \<Rightarrow> slot" where
  "Slot i = \<lparr>s_index = i,
             s_rect = \<lparr>left = BOARD_X + int (i mod COLS) * TILE_SIZE,
                       top = BOARD_Y + int (i div COLS) * TILE_SIZE,
                       width = TILE_SIZE, height = TILE_SIZE\<rparr>,
             filled = False\<rparr>"

subsection \<open>The state\<close>

text \<open>
  \<^verbatim>\<open>held_piece\<close> is a reference to one of the objects in \<^verbatim>\<open>pieces\<close>; the model keeps its
  position in that list, so that a write through \<^verbatim>\<open>held_piece\<close> is a write to the list.
  A record whose held position lies outside the list stands for no state of the program.
\<close>

record state =
  pieces :: "piece list"
  slots :: "slot list"
  shuffled_tray :: "nat list"
  held_piece :: "nat option"
  drag_offset :: "int \<times> int"
  complete :: bool
  win_timer :: int
  running :: bool

subsection \<open>Tray layout (source lines 191--202)\<close>

definition tile_w :: int where
  "tile_w = (TRAY_W - TRAY_PAD * (int TRAY_COLS + 1)) div int TRAY_COLS"

definition tray_rect :: "nat \<Rightarrow> rect" where
  "tray_rect i =
     \<lparr>left = TRAY_X + TRAY_PAD + int (i mod TRAY_COLS) * (tile_w + TRAY_PAD),
      top = TRAY_Y + 70 + int (i div TRAY_COLS) * (tile_w + TRAY_PAD),
      width = tile_w, height = tile_w\<rparr>"

text \<open>The list comprehension of line 193; \<^verbatim>\<open>pieces[i]\<close> raises when \<open>i\<close> is out of range.\<close>

definition unplaced :: "piece list \<Rightarrow> nat list \<Rightarrow> error + nat list" where
  "unplaced ps tray =
     (if list_all (\<lambda>i. i < length ps) tray
      then Inr (filter (\<lambda>i. \<not> placed (ps ! i)) tray)
      else Inl IndexError)"

text \<open>
  The loop of lines 195--202 over the enumerated unplaced pieces, counter first. The
  positions \<open>ks\<close> come from \<open>unplaced\<close>, which has already raised if one was out of range.
\<close>

fun place_tray :: "nat \<Rightarrow> nat list \<Rightarrow> piece list \<Rightarrow> error + piece list" where
  "place_tray i [] ps = Inr ps"
| "place_tray i (k # ks) ps =
     and_then (map_tiles (p_index (ps ! k))) (\<lambda>t.
       place_tray (Suc i) ks
         (ps[k := (ps ! k)\<lparr>p_rect := tray_rect i, p_image := scale t tile_w\<rparr>]))"

definition layout_tray :: "state \<Rightarrow> error + state" where
  "layout_tray s =
     and_then (unplaced (pieces s) (shuffled_tray s)) (\<lambda>ks.
       and_then (place_tray 0 ks (pieces s)) (\<lambda>ps. Inr (s\<lparr>pieces := ps\<rparr>)))"

subsection \<open>Starting a game (source lines 184--214 and 289--300)\<close>

fun reset_pieces :: "piece list \<Rightarrow> error + piece list" where
  "reset_pieces [] = Inr []"
| "reset_pieces (p # ps) =
     and_then (map_tiles (p_index p)) (\<lambda>t.
       and_then (reset_pieces ps) (\<lambda>ps'. Inr (p\<lparr>placed := False, p_image := t\<rparr> # ps')))"

text \<open>
  Lines 289--297. \<^verbatim>\<open>random.shuffle\<close> permutes \<^verbatim>\<open>shuffled_tray\<close> in place; its outcome is
  the argument \<open>t\<close>, a rearrangement of the current list.
\<close>

definition reset_state :: "nat list \<Rightarrow> state \<Rightarrow> error + state" where
  "reset_state t s =
     and_then (reset_pieces (pieces s)) (\<lambda>ps.
       Inr (s\<lparr>shuffled_tray := t, pieces := ps,
              slots := map (\<lambda>sl. sl\<lparr>filled := False\<rparr>) (slots s),
              held_piece := None, complete := False, win_timer := 0\<rparr>))"

text \<open>Lines 289--300: the reset, the layout of line 298, and \<^verbatim>\<open>running = True\<close>.\<close>

definition new_game :: "nat list \<Rightarrow> state \<Rightarrow> error + state" where
  "new_game t s =
     and_then (reset_state t s) (\<lambda>s1.
       and_then (layout_tray s1) (\<lambda>s2. Inr (s2\<lparr>running := True\<rparr>)))"

text \<open>
  The module-level code of lines 184--214, \<open>t0\<close> being the outcome of the shuffle of
  line 188. \<^verbatim>\<open>running\<close> does not exist yet; the model gives it the value \<open>False\<close>.
\<close>

definition module_state :: "nat list \<Rightarrow> error + state" where
  "module_state t0 =
     and_then (layout_tray
       \<lparr>pieces = map Piece [0..<COLS * ROWS], slots = map Slot [0..<COLS * ROWS],
        shuffled_tray = t0, held_piece = None, drag_offset = (0, 0),
        complete = False, win_timer = 0, running = False\<rparr>) Inr"

definition init_game :: "nat list \<Rightarrow> nat list \<Rightarrow> error + state" where
  "init_game t0 t = and_then (module_state t0) (new_game t)"

subsection \<open>Events (source lines 305--353)\<close>

datatype event =
    QUIT
  | KEYDOWN nat
  | MOUSEBUTTONDOWN "int \<times> int" nat
  | MOUSEMOTION "int \<times> int"
  | MOUSEBUTTONUP "int \<times> int" nat
  | OTHER

definition K_r :: nat where "K_r = 114"

text \<open>
  Lines 319--327: the scan of \<^verbatim>\<open>shuffled_tray[::-1]\<close> for the first unplaced piece whose
  rectangle contains the pointer; the caller passes the reversed list.
\<close>

fun pick_scan :: "piece list \<Rightarrow> int \<times> int \<Rightarrow> nat list \<Rightarrow> error + nat option" where
  "pick_scan ps pos [] = Inr None"
| "pick_scan ps pos (i # is) =
     (if i < length ps
      then (if \<not> placed (ps ! i) \<and> collidepoint (p_rect (ps ! i)) pos
            then Inr (Some i)
            else pick_scan ps pos is)
      else Inl IndexError)"

definition mouse_down :: "int \<times> int \<Rightarrow> state \<Rightarrow> error + state" where
  "mouse_down pos s =
     (if complete s then Inr s
      else and_then (pick_scan (pieces s) pos (rev (shuffled_tray s))) (\<lambda>found.
        case found of
          None \<Rightarrow> Inr s
        | Some i \<Rightarrow>
            (let p = pieces s ! i in
             and_then (map_tiles (p_index p)) (\<lambda>t.
               Inr (s\<lparr>pieces := (pieces s)[i := p\<lparr>p_image := scale t TILE_SIZE,
                          p_rect := \<lparr>left = left (p_rect p), top = top (p_rect p),
                                     width = TILE_SIZE, height = TILE_SIZE\<rparr>\<rparr>],
                      held_piece := Some i,
                      drag_offset := (fst pos - left (p_rect p), snd pos - top (p_rect p))\<rparr>)))))"

definition mouse_motion :: "int \<times> int \<Rightarrow> state \<Rightarrow> state" where
  "mouse_motion pos s =
     (case held_piece s of
        None \<Rightarrow> s
      | Some h \<Rightarrow>
          s\<lparr>pieces := (pieces s)[h := (pieces s ! h)\<lparr>p_rect := (p_rect (pieces s ! h))
               \<lparr>left := fst pos - fst (drag_offset s), top := snd pos - snd (drag_offset s)\<rparr>\<rparr>]\<rparr>)"

text \<open>
  Lines 338--347: the loop over the slots. It stops at the first unfilled slot that
  contains the pointer, and fills it when its index is the held piece's index \<open>k\<close>; the
  result is the slot list and, when a slot was filled, that slot's rectangle.
\<close>

fun drop_scan :: "nat \<Rightarrow> int \<times> int \<Rightarrow> slot list \<Rightarrow> slot list \<times> rect option" where
  "drop_scan k pos [] = ([], None)"
| "drop_scan k pos (sl # sls) =
     (if \<not> filled sl \<and> collidepoint (s_rect sl) pos
      then (if s_index sl = k then (sl\<lparr>filled := True\<rparr> # sls, Some (s_rect sl))
            else (sl # sls, None))
      else (sl # fst (drop_scan k pos sls), snd (drop_scan k pos sls)))"

definition mouse_up :: "int \<times> int \<Rightarrow> state \<Rightarrow> error + state" where
  "mouse_up pos s =
     (case held_piece s of
        None \<Rightarrow> Inr s
      | Some h \<Rightarrow>
          if complete s then Inr s
          else
            (let hp = pieces s ! h; res = drop_scan (p_index hp) pos (slots s) in
             and_then
               (case snd res of
                  None \<Rightarrow> Inr (pieces s)
                | Some rc \<Rightarrow>
                    and_then (map_tiles (p_index hp)) (\<lambda>t.
                      Inr ((pieces s)[h := hp\<lparr>placed := True, p_rect := rc,
                                              p_image := scale t TILE_SIZE\<rparr>])))
               (\<lambda>ps.
                 and_then (layout_tray (s\<lparr>slots := fst res, pieces := ps, held_piece := None\<rparr>))
                   (\<lambda>s2. if list_all filled (slots s2)
                          then Inr (s2\<lparr>complete := True, win_timer := 0\<rparr>)
                          else Inr s2))))"

text \<open>The \<^verbatim>\<open>if\<close>/\<^verbatim>\<open>elif\<close> chain of lines 307--353, in the source's order.\<close>

fun handle_event :: "event \<Rightarrow> state \<Rightarrow> error + state" where
  "handle_event QUIT s = Inl SystemExit"
| "handle_event (KEYDOWN key) s = (if key = K_r then Inr (s\<lparr>running := False\<rparr>) else Inr s)"
| "handle_event (MOUSEBUTTONDOWN pos button) s = (if button = 1 then mouse_down pos s else Inr s)"
| "handle_event (MOUSEMOTION pos) s = Inr (mouse_motion pos s)"
| "handle_event (MOUSEBUTTONUP pos button) s = (if button = 1 then mouse_up pos s else Inr s)"
| "handle_event OTHER s = Inr s"

text \<open>The loop of line 305 over the events of one frame; an exception ends it.\<close>

fun run_events :: "event list \<Rightarrow> state \<Rightarrow> error + state" where
  "run_events [] s = Inr s"
| "run_events (e # es) s = and_then (handle_event e s) (run_events es)"

text \<open>
  Lines 355--359 and the loop tests of lines 301 and 287: after the events of a frame the
  win timer advances by the frame's \<open>ms\<close>, and when \<^verbatim>\<open>running\<close> was cleared the inner loop
  ends and the game is started again, with \<open>t\<close> the outcome of the shuffle.
\<close>

definition end_frame :: "int \<Rightarrow> nat list \<Rightarrow> state \<Rightarrow> error + state" where
  "end_frame ms t s =
     (let s1 = (if complete s then s\<lparr>win_timer := win_timer s + ms\<rparr> else s)
      in if running s1 then Inr s1 else new_game t s1)"

subsection \<open>Reachable states\<close>

text \<open>
  A run is the start-up followed by frames, each a list of events and then the end of the
  frame. The states seen between two events are therefore those reached by event steps and
  end-of-frame steps in any order.
\<close>

inductive reach :: "state \<Rightarrow> bool" where
  start: "mset t0 = mset [0..<COLS * ROWS] \<Longrightarrow> mset t = mset t0 \<Longrightarrow> init_game t0 t = Inr s
          \<Longrightarrow> reach s"
| event: "reach s \<Longrightarrow> handle_event e s = Inr s' \<Longrightarrow> reach s'"
| frame: "reach s \<Longrightarrow> 0 \<le> ms \<Longrightarrow> mset t = mset (shuffled_tray s) \<Longrightarrow> end_frame ms t s = Inr s'
          \<Longrightarrow> reach s'"

subsection \<open>What a frame shows (source lines 247--259)\<close>

definition tray_pieces :: "state \<Rightarrow> nat list" where
  "tray_pieces s =
     filter (\<lambda>i. \<not> placed (pieces s ! i) \<and> held_piece s \<noteq> Some i) (shuffled_tray s)"

definition placed_pieces :: "state \<Rightarrow> nat list" where
  "placed_pieces s = map s_index (filter filled (slots s))"

definition held_pieces :: "state \<Rightarrow> nat list" where
  "held_pieces s = (case held_piece s of None \<Rightarrow> [] | Some h \<Rightarrow> [h])"



subsection \<open>Notions used in the proofs\<close>

text \<open>
  The test of line 321: piece \<open>i\<close> is not placed and its rectangle contains the pointer.
\<close>

definition hit :: "piece list \<Rightarrow> int \<times> int \<Rightarrow> nat \<Rightarrow> bool" where
  "hit ps pos i = (\<not> placed (ps ! i) \<and> collidepoint (p_rect (ps ! i)) pos)"

text \<open>
  The invariant of the game: there are \<open>COLS * ROWS\<close> pieces and slots, piece and slot
  \<open>i\<close> carry index \<open>i\<close>, slot \<open>i\<close> has its board rectangle and is filled exactly when
  piece \<open>i\<close> is placed, the tray order is a rearrangement of all indices, and a held piece
  is not placed. \<open>game_inv\<close> adds that \<^verbatim>\<open>complete\<close> says whether every slot is filled.
\<close>

definition board_inv :: "state \<Rightarrow> bool" where
  "board_inv s =
     (length (pieces s) = COLS * ROWS \<and> length (slots s) = COLS * ROWS \<and>
      list_all (\<lambda>i. p_index (pieces s ! i) = i \<and>
                     slots s ! i = (Slot i)\<lparr>filled := placed (pieces s ! i)\<rparr>) [0..<COLS * ROWS] \<and>
      mset (shuffled_tray s) = mset [0..<COLS * ROWS] \<and>
      (case held_piece s of None \<Rightarrow> True | Some h \<Rightarrow> h < COLS * ROWS \<and> \<not> placed (pieces s ! h)))"

definition game_inv :: "state \<Rightarrow> bool" where
  "game_inv s = (board_inv s \<and> complete s = list_all filled (slots s))"

text \<open>
  The state between the drop of lines 338--348 and the layout of line 349, when piece \<open>h\<close>
  is held and the board invariant holds: the drop succeeds exactly when the pointer is in
  the rectangle of slot \<open>h\<close>.
\<close>

definition dropped :: "nat \<Rightarrow> int \<times> int \<Rightarrow> state \<Rightarrow> state" where
  "dropped h pos s =
     (if collidepoint (s_rect (Slot h)) pos
      then s\<lparr>slots := (slots s)[h := (slots s ! h)\<lparr>filled := True\<rparr>],
             pieces := (pieces s)[h := (pieces s ! h)\<lparr>placed := True, p_rect := s_rect (Slot h),
                          p_image := \<lparr>tile_of = h, side = TILE_SIZE\<rparr>\<rparr>],
             held_piece := None\<rparr>
      else s\<lparr>held_piece := None\<rparr>)"

text \<open>The test of lines 351--353.\<close>

definition win_check :: "state \<Rightarrow> state" where
  "win_check s = (if list_all filled (slots s) then s\<lparr>complete := True, win_timer := 0\<rparr> else s)"

text \<open>What lines 291--292 do to one piece whose index is in range.\<close>

definition fresh :: "piece \<Rightarrow> piece" where
  "fresh p = p\<lparr>placed := False, p_image := \<lparr>tile_of = p_index p, side = TILE_SIZE\<rparr>\<rparr>"

subsection \<open>Example runs\<close>

text \<open>
  A game dealt with the tray order 4, 0, 8, 1, 5, 2, 6, 3, 7. The first tray position has
  the rectangle with corner (22, 80), so a press at (30, 90) picks up the first unplaced
  piece of the tray order; slot 4 has corner (510, 240). \<open>demo_held\<close> is the state after
  that press, \<open>demo_mid\<close> the state after piece 4 was dropped on slot 4 and piece 0 picked
  up, \<open>demo_won\<close> the state after every piece was carried to the middle of its slot, and
  \<open>demo_relaid\<close> the state \<open>demo_held\<close> with the tray laid out again.
\<close>

definition scenario_tray :: "nat list" where
  "scenario_tray = [4, 0, 8, 1, 5, 2, 6, 3, 7]"

definition demo_start :: state where
  "demo_start = projr (init_game [0..<9] scenario_tray)"

definition demo_held :: state where
  "demo_held = projr (run_events [MOUSEBUTTONDOWN (30, 90) 1] demo_start)"

definition demo_mid :: state where
  "demo_mid = projr (run_events
     [MOUSEBUTTONDOWN (30, 90) 1, MOUSEMOTION (590, 320), MOUSEBUTTONUP (590, 320) 1,
      MOUSEBUTTONDOWN (30, 90) 1] demo_start)"

definition win_events :: "event list" where
  "win_events = concat (map (\<lambda>k. [MOUSEBUTTONDOWN (30, 90) 1,
       MOUSEBUTTONUP (BOARD_X + int (k mod COLS) * TILE_SIZE + 80,
                      BOARD_Y + int (k div COLS) * TILE_SIZE + 80) 1]) scenario_tray)"

definition demo_won :: state where
  "demo_won = projr (run_events win_events demo_start)"

definition demo_relaid :: state where
  "demo_relaid = projr (layout_tray demo_held)"

section \<open>Start-up with a missing picture\<close>

text \<open>
  Claim C1: when the picture file cannot be loaded the program does not fail but plays on
  with placeholder tiles. On the code this does not hold. With the file missing,
  \<^verbatim>\<open>load_map_tiles\<close> returns \<^verbatim>\<open>None\<close> and the nine placeholder tiles are built, each
  with the colour and icon at its index modulo the palette size; the unguarded
  \<^verbatim>\<open>pygame.image.load\<close> of line 132 then raises, so the start-up ends in an exception
  and \<^verbatim>\<open>main\<close> never runs. A file that is present but cannot be decoded makes the first
  \<^verbatim>\<open>pygame.image.load\<close>, inside \<^verbatim>\<open>load_map_tiles\<close>, raise in the same way.
\<close>

theorem startup_missing_picture_raises:
  "load_map_tiles Missing TILE_SIZE COLS ROWS = Inr None \<and>
   make_fallback_tile 4 TILE_SIZE = Placeholder (170, 120, 200) 0x1F6D2 160 \<and>
   startup Missing = Inl ImageLoadError \<and> startup Unreadable = Inl ImageLoadError"
  by (simp add: startup_def load_map_tiles_def image_load_def and_then_def
      make_fallback_tile_def FALLBACK_COLOURS_def FALLBACK_ICONS_def TILE_SIZE_def)

section \<open>Basic facts\<close>

lemma nine: "COLS * ROWS = 9" by (simp add: COLS_def ROWS_def)

lemma and_then_Inr_iff: "and_then m f = Inr y \<longleftrightarrow> (\<exists>x. m = Inr x \<and> f x = Inr y)"
  by (cases m) (simp_all add: and_then_def)

lemma and_then_Inr [simp]: "and_then (Inr x) f = f x"
  by (simp add: and_then_def)

lemma and_then_Inl [simp]: "and_then (Inl e) f = Inl e"
  by (simp add: and_then_def)

lemma map_tiles_Inr_iff: "map_tiles i = Inr t \<longleftrightarrow> i < COLS * ROWS \<and> t = \<lparr>tile_of = i, side = TILE_SIZE\<rparr>"
  by (auto simp: map_tiles_def)

lemma map_update_same: "(map f xs)[k := f (xs ! k)] = map f xs"
  by (metis list_update_id map_update)

lemma place_tray_keeps:
  "place_tray n ks ps = Inr ps' \<Longrightarrow>
     length ps' = length ps \<and> map p_index ps' = map p_index ps \<and> map placed ps' = map placed ps"
proof (induction ks arbitrary: n ps)
  case Nil
  then show ?case by simp
next
  case (Cons k ks)
  from Cons.prems obtain t where
    r: "place_tray (Suc n) ks (ps[k := (ps ! k)\<lparr>p_rect := tray_rect n, p_image := scale t tile_w\<rparr>]) = Inr ps'"
    by (auto simp: and_then_Inr_iff)
  from Cons.IH [OF r] show ?case
    by (simp add: map_update map_update_same)
qed

lemma place_tray_others:
  "place_tray n ks ps = Inr ps' \<Longrightarrow> k \<notin> set ks \<Longrightarrow> ps' ! k = ps ! k"
proof (induction ks arbitrary: n ps)
  case Nil
  then show ?case by simp
next
  case (Cons a ks)
  from Cons.prems obtain t where
    r: "place_tray (Suc n) ks (ps[a := (ps ! a)\<lparr>p_rect := tray_rect n, p_image := scale t tile_w\<rparr>]) = Inr ps'"
    by (auto simp: and_then_Inr_iff)
  from Cons.IH [OF r] Cons.prems(2) show ?case by simp
qed

lemma place_tray_total:
  "\<forall>k \<in> set ks. k < length ps \<and> p_index (ps ! k) < COLS * ROWS \<Longrightarrow> \<exists>ps'. place_tray n ks ps = Inr ps'"
proof (induction ks arbitrary: n ps)
  case Nil
  then show ?case by simp
next
  case (Cons a ks)
  let ?ps = "ps[a := (ps ! a)\<lparr>p_rect := tray_rect n, p_image := scale \<lparr>tile_of = p_index (ps ! a), side = TILE_SIZE\<rparr> tile_w\<rparr>]"
  have "\<forall>k \<in> set ks. k < length ?ps \<and> p_index (?ps ! k) < COLS * ROWS"
    using Cons.prems by (auto simp: nth_list_update)
  from Cons.IH [OF this] Cons.prems show ?case
    by (simp add: map_tiles_def)
qed

lemma place_tray_rects:
  "place_tray n ks ps = Inr ps' \<Longrightarrow> distinct ks \<Longrightarrow> \<forall>k \<in> set ks. k < length ps \<Longrightarrow> j < length ks \<Longrightarrow>
     p_rect (ps' ! (ks ! j)) = tray_rect (n + j) \<and>
     p_image (ps' ! (ks ! j)) = \<lparr>tile_of = p_index (ps ! (ks ! j)), side = tile_w\<rparr>"
proof (induction ks arbitrary: n ps j)
  case Nil
  then show ?case by simp
next
  case (Cons a ks)
  from Cons.prems(1) obtain t where
    t: "map_tiles (p_index (ps ! a)) = Inr t" and
    r: "place_tray (Suc n) ks (ps[a := (ps ! a)\<lparr>p_rect := tray_rect n, p_image := scale t tile_w\<rparr>]) = Inr ps'"
    by (auto simp: and_then_Inr_iff)
  show ?case
  proof (cases j)
    case 0
    have "a \<notin> set ks" using Cons.prems(2) by simp
    from place_tray_others [OF r this] t Cons.prems(3) show ?thesis
      using 0 by (simp add: map_tiles_Inr_iff scale_def)
  next
    case (Suc j')
    have d: "distinct ks" and a: "a \<notin> set ks" using Cons.prems(2) by simp_all
    have b: "\<forall>k\<in>set ks. k < length (ps[a := (ps ! a)\<lparr>p_rect := tray_rect n, p_image := scale t tile_w\<rparr>])"
      using Cons.prems(3) by simp
    have j': "j' < length ks" using Cons.prems(4) Suc by simp
    have ne: "ks ! j' \<noteq> a" using a j' by (metis nth_mem)
    from Cons.IH [OF r d b j'] ne show ?thesis
      using Suc by simp
  qed
qed

section \<open>The drop scan and the geometry of the board\<close>

lemma drop_scan_length: "length (fst (drop_scan k pos sls)) = length sls"
  by (induction sls) simp_all

lemma drop_scan_None: "snd (drop_scan k pos sls) = None \<Longrightarrow> fst (drop_scan k pos sls) = sls"
  by (induction sls) (auto split: if_splits)

lemma drop_scan_Some:
  "snd (drop_scan k pos sls) = Some rc \<Longrightarrow>
     \<exists>n<length sls. \<not> filled (sls ! n) \<and> collidepoint (s_rect (sls ! n)) pos \<and>
        s_index (sls ! n) = k \<and> rc = s_rect (sls ! n) \<and>
        fst (drop_scan k pos sls) = sls[n := (sls ! n)\<lparr>filled := True\<rparr>]"
proof (induction sls)
  case Nil
  then show ?case by simp
next
  case (Cons sl sls)
  show ?case
  proof (cases "\<not> filled sl \<and> collidepoint (s_rect sl) pos")
    case True
    with Cons.prems have "s_index sl = k" "rc = s_rect sl"
      by (auto split: if_splits)
    with True show ?thesis by (intro exI [of _ 0]) simp
  next
    case False
    with Cons.prems have "snd (drop_scan k pos sls) = Some rc" by auto
    from Cons.IH [OF this] obtain n where n: "n < length sls" "\<not> filled (sls ! n)"
      "collidepoint (s_rect (sls ! n)) pos" "s_index (sls ! n) = k" "rc = s_rect (sls ! n)"
      "fst (drop_scan k pos sls) = sls[n := (sls ! n)\<lparr>filled := True\<rparr>]" by blast
    with False show ?thesis by (intro exI [of _ "Suc n"]) auto
  qed
qed

lemma drop_scan_first:
  "n < length sls \<Longrightarrow> \<not> filled (sls ! n) \<Longrightarrow> collidepoint (s_rect (sls ! n)) pos \<Longrightarrow>
   \<forall>m<n. filled (sls ! m) \<or> \<not> collidepoint (s_rect (sls ! m)) pos \<Longrightarrow>
   snd (drop_scan k pos sls) = (if s_index (sls ! n) = k then Some (s_rect (sls ! n)) else None)"
proof (induction sls arbitrary: n)
  case Nil
  then show ?case by simp
next
  case (Cons sl sls)
  show ?case
  proof (cases n)
    case 0
    with Cons.prems show ?thesis by simp
  next
    case (Suc n')
    from Cons.prems(4) Suc have h0: "filled sl \<or> \<not> collidepoint (s_rect sl) pos" by auto
    have "\<forall>m<n'. filled (sls ! m) \<or> \<not> collidepoint (s_rect (sls ! m)) pos"
      using Cons.prems(4) Suc by auto
    from Cons.IH [of n', OF _ _ _ this] Cons.prems(1,2,3) Suc h0 show ?thesis by auto
  qed
qed

lemma drop_scan_miss:
  "\<forall>m<length sls. filled (sls ! m) \<or> \<not> collidepoint (s_rect (sls ! m)) pos \<Longrightarrow>
   snd (drop_scan k pos sls) = None"
proof (induction sls)
  case Nil
  then show ?case by simp
next
  case (Cons sl sls)
  from Cons.prems have h0: "filled sl \<or> \<not> collidepoint (s_rect sl) pos" by auto
  have "\<forall>m<length sls. filled (sls ! m) \<or> \<not> collidepoint (s_rect (sls ! m)) pos"
    using Cons.prems by auto
  from Cons.IH [OF this] h0 show ?case by auto
qed

lemma slot_of_point:
  assumes "i < COLS * ROWS" "collidepoint (s_rect (Slot i)) pos"
  shows "int i = (snd pos - 80) div 160 * 3 + (fst pos - 350) div 160"
proof -
  have i: "i < 9" using assms(1) by (simp add: COLS_def ROWS_def)
  have c: "350 + int (i mod 3) * 160 \<le> fst pos" "fst pos < 350 + int (i mod 3) * 160 + 160"
    "80 + int (i div 3) * 160 \<le> snd pos" "snd pos < 80 + int (i div 3) * 160 + 160"
    using assms(2)
    by (simp_all add: collidepoint_def Slot_def BOARD_X_def BOARD_Y_def TILE_SIZE_def
        COLS_def ROWS_def SCREEN_H_def)
  have "(fst pos - 350) div 160 = int (i mod 3)" using c(1,2) by linarith
  moreover have "(snd pos - 80) div 160 = int (i div 3)" using c(3,4) by linarith
  moreover have "int i = int (i div 3) * 3 + int (i mod 3)"
    by (metis mult.commute mult_div_mod_eq of_nat_add of_nat_mult of_nat_numeral)
  ultimately show ?thesis by simp
qed

lemma slot_rect_disjoint:
  "i < COLS * ROWS \<Longrightarrow> j < COLS * ROWS \<Longrightarrow> collidepoint (s_rect (Slot i)) pos \<Longrightarrow>
   collidepoint (s_rect (Slot j)) pos \<Longrightarrow> i = j"
  using slot_of_point [of i pos] slot_of_point [of j pos] by simp

section \<open>The invariant\<close>

lemma board_inv_length: "board_inv s \<Longrightarrow> length (pieces s) = COLS * ROWS \<and> length (slots s) = COLS * ROWS"
  by (simp add: board_inv_def)

lemma board_inv_index: "board_inv s \<Longrightarrow> i < COLS * ROWS \<Longrightarrow> p_index (pieces s ! i) = i"
  by (simp add: board_inv_def list_all_iff)

lemma board_inv_slot:
  "board_inv s \<Longrightarrow> i < COLS * ROWS \<Longrightarrow> slots s ! i = (Slot i)\<lparr>filled := placed (pieces s ! i)\<rparr>"
  by (simp add: board_inv_def list_all_iff)

lemma board_inv_tray: "board_inv s \<Longrightarrow> mset (shuffled_tray s) = mset [0..<COLS * ROWS]"
  by (simp add: board_inv_def)

lemma board_inv_tray_set: "board_inv s \<Longrightarrow> set (shuffled_tray s) = {0..<COLS * ROWS}"
  by (metis board_inv_tray mset_eq_setD set_upt)

lemma board_inv_tray_distinct: "board_inv s \<Longrightarrow> distinct (shuffled_tray s)"
  by (metis board_inv_tray distinct_upt mset_eq_imp_distinct_iff)

lemma board_inv_held:
  "board_inv s \<Longrightarrow> held_piece s = Some h \<Longrightarrow> h < COLS * ROWS \<and> \<not> placed (pieces s ! h)"
  by (simp add: board_inv_def)

lemma board_inv_filled:
  "board_inv s \<Longrightarrow> i < COLS * ROWS \<Longrightarrow> filled (slots s ! i) = placed (pieces s ! i)"
  by (simp add: board_inv_slot)

lemma board_inv_all_filled:
  assumes "board_inv s"
  shows "list_all filled (slots s) \<longleftrightarrow> (\<forall>i<COLS * ROWS. placed (pieces s ! i))"
proof -
  have "list_all filled (slots s) \<longleftrightarrow> (\<forall>i<COLS * ROWS. filled (slots s ! i))"
    using board_inv_length [OF assms] by (simp add: list_all_length)
  then show ?thesis
    using board_inv_filled [OF assms] by simp
qed

lemma game_inv_board: "game_inv s \<Longrightarrow> board_inv s"
  by (simp add: game_inv_def)

lemma game_inv_complete: "game_inv s \<Longrightarrow> complete s = list_all filled (slots s)"
  by (simp add: game_inv_def)

text \<open>The board invariant reads only the index and placed flag of each piece.\<close>

lemma board_inv_transfer:
  assumes "board_inv s"
    and "map p_index (pieces s') = map p_index (pieces s)"
    and "map placed (pieces s') = map placed (pieces s)"
    and "slots s' = slots s" and "mset (shuffled_tray s') = mset (shuffled_tray s)"
    and "\<And>h. held_piece s' = Some h \<Longrightarrow> h < COLS * ROWS \<and> \<not> placed (pieces s ! h)"
  shows "board_inv s'"
proof -
  have len: "length (pieces s') = length (pieces s)"
    using assms(2) by (metis length_map)
  have ix: "p_index (pieces s' ! i) = p_index (pieces s ! i)" if "i < length (pieces s)" for i
    using assms(2) that len by (metis nth_map)
  have pl: "placed (pieces s' ! i) = placed (pieces s ! i)" if "i < length (pieces s)" for i
    using assms(3) that len by (metis nth_map)
  show ?thesis
    using assms(1) len ix pl assms(4-6)
    by (auto simp: board_inv_def list_all_iff split: option.splits)
qed

lemma unplaced_Inr_iff:
  "unplaced ps tray = Inr ks \<longleftrightarrow>
     (\<forall>i \<in> set tray. i < length ps) \<and> ks = filter (\<lambda>i. \<not> placed (ps ! i)) tray"
  by (auto simp: unplaced_def list_all_iff)

lemma layout_tray_frame:
  assumes "layout_tray s = Inr s'"
  shows "\<exists>ps. s' = s\<lparr>pieces := ps\<rparr> \<and> length ps = length (pieces s) \<and>
           map p_index ps = map p_index (pieces s) \<and> map placed ps = map placed (pieces s)"
proof -
  from assms obtain ks ps where "place_tray 0 ks (pieces s) = Inr ps" "s' = s\<lparr>pieces := ps\<rparr>"
    by (auto simp: layout_tray_def and_then_Inr_iff)
  with place_tray_keeps [of 0 ks "pieces s" ps] show ?thesis by auto
qed

lemma layout_tray_total:
  assumes "\<forall>i \<in> set (shuffled_tray s). i < length (pieces s) \<and> p_index (pieces s ! i) < COLS * ROWS"
  shows "\<exists>s'. layout_tray s = Inr s'"
proof -
  let ?ks = "filter (\<lambda>i. \<not> placed (pieces s ! i)) (shuffled_tray s)"
  have u: "unplaced (pieces s) (shuffled_tray s) = Inr ?ks"
    using assms by (simp add: unplaced_Inr_iff)
  have "\<forall>k \<in> set ?ks. k < length (pieces s) \<and> p_index (pieces s ! k) < COLS * ROWS"
    using assms by simp
  from place_tray_total [OF this, of 0] obtain ps where "place_tray 0 ?ks (pieces s) = Inr ps" ..
  with u show ?thesis by (simp add: layout_tray_def)
qed

lemma board_inv_layout_total:
  assumes "board_inv s"
  shows "\<exists>s'. layout_tray s = Inr s'"
proof (rule layout_tray_total, rule ballI)
  fix i assume "i \<in> set (shuffled_tray s)"
  then have "i < COLS * ROWS" using board_inv_tray_set [OF assms] by simp
  then show "i < length (pieces s) \<and> p_index (pieces s ! i) < COLS * ROWS"
    using board_inv_length [OF assms] board_inv_index [OF assms] by simp
qed

lemma board_inv_layout:
  assumes "board_inv s" "layout_tray s = Inr s'"
  shows "board_inv s'"
proof -
  from layout_tray_frame [OF assms(2)] obtain ps where
    "s' = s\<lparr>pieces := ps\<rparr>" "map p_index ps = map p_index (pieces s)"
    "map placed ps = map placed (pieces s)" by blast
  then show ?thesis
    using board_inv_held [OF assms(1)] by (intro board_inv_transfer [OF assms(1)]) simp_all
qed

section \<open>Handlers keep the invariant\<close>

lemma pick_scan_find:
  "list_all (\<lambda>i. i < length ps) xs \<Longrightarrow> pick_scan ps pos xs = Inr (find (hit ps pos) xs)"
  by (induction xs) (simp_all add: hit_def)

lemma pick_scan_Some:
  "pick_scan ps pos xs = Inr (Some i) \<Longrightarrow> i \<in> set xs \<and> i < length ps \<and> hit ps pos i"
  by (induction xs) (auto simp: hit_def split: if_splits)

lemma layout_tray_fields:
  assumes "layout_tray s = Inr s'"
  shows "slots s' = slots s \<and> shuffled_tray s' = shuffled_tray s \<and> held_piece s' = held_piece s \<and>
         drag_offset s' = drag_offset s \<and> complete s' = complete s \<and> win_timer s' = win_timer s \<and>
         running s' = running s \<and> map placed (pieces s') = map placed (pieces s) \<and>
         map p_index (pieces s') = map p_index (pieces s)"
  using layout_tray_frame [OF assms] by auto

lemma nth_update_cases: "i < length xs \<Longrightarrow> xs[k := v] ! i = (if i = k then v else xs ! i)"
  by (cases "i = k") simp_all

lemma map_placed_moved [simp]:
  "map placed (ps[k := (ps ! k)\<lparr>p_image := a, p_rect := b\<rparr>]) = map placed ps"
  "map placed (ps[k := (ps ! k)\<lparr>p_rect := b\<rparr>]) = map placed ps"
  "map placed (ps[k := (ps ! k)\<lparr>p_rect := b, p_image := a\<rparr>]) = map placed ps"
  by (rule nth_equalityI; simp add: nth_update_cases)+

lemma map_index_moved [simp]:
  "map p_index (ps[k := (ps ! k)\<lparr>p_image := a, p_rect := b\<rparr>]) = map p_index ps"
  "map p_index (ps[k := (ps ! k)\<lparr>p_rect := b\<rparr>]) = map p_index ps"
  "map p_index (ps[k := (ps ! k)\<lparr>p_rect := b, p_image := a\<rparr>]) = map p_index ps"
  by (rule nth_equalityI; simp add: nth_update_cases)+

subsection \<open>Pointer down\<close>

lemma mouse_down_cases:
  assumes "mouse_down pos s = Inr s'"
  shows "s' = s \<or>
    (\<exists>i. \<not> complete s \<and> pick_scan (pieces s) pos (rev (shuffled_tray s)) = Inr (Some i) \<and>
       s' = s\<lparr>pieces := (pieces s)[i := (pieces s ! i)\<lparr>p_image := \<lparr>tile_of = p_index (pieces s ! i), side = TILE_SIZE\<rparr>,
                     p_rect := \<lparr>left = left (p_rect (pieces s ! i)), top = top (p_rect (pieces s ! i)),
                                width = TILE_SIZE, height = TILE_SIZE\<rparr>\<rparr>],
              held_piece := Some i,
              drag_offset := (fst pos - left (p_rect (pieces s ! i)), snd pos - top (p_rect (pieces s ! i)))\<rparr>)"
  using assms
  by (auto simp: mouse_down_def and_then_Inr_iff Let_def map_tiles_Inr_iff scale_def
      split: if_splits option.splits)

lemma board_inv_mouse_down:
  assumes "board_inv s" "mouse_down pos s = Inr s'"
  shows "board_inv s'"
proof -
  from mouse_down_cases [OF assms(2)] show ?thesis
  proof
    assume "s' = s" with assms(1) show ?thesis by simp
  next
    assume "\<exists>i. \<not> complete s \<and> pick_scan (pieces s) pos (rev (shuffled_tray s)) = Inr (Some i) \<and>
       s' = s\<lparr>pieces := (pieces s)[i := (pieces s ! i)\<lparr>p_image := \<lparr>tile_of = p_index (pieces s ! i), side = TILE_SIZE\<rparr>,
                     p_rect := \<lparr>left = left (p_rect (pieces s ! i)), top = top (p_rect (pieces s ! i)),
                                width = TILE_SIZE, height = TILE_SIZE\<rparr>\<rparr>],
              held_piece := Some i,
              drag_offset := (fst pos - left (p_rect (pieces s ! i)), snd pos - top (p_rect (pieces s ! i)))\<rparr>"
    then obtain i where p: "pick_scan (pieces s) pos (rev (shuffled_tray s)) = Inr (Some i)"
      and s': "s' = s\<lparr>pieces := (pieces s)[i := (pieces s ! i)\<lparr>p_image := \<lparr>tile_of = p_index (pieces s ! i), side = TILE_SIZE\<rparr>,
                     p_rect := \<lparr>left = left (p_rect (pieces s ! i)), top = top (p_rect (pieces s ! i)),
                                width = TILE_SIZE, height = TILE_SIZE\<rparr>\<rparr>],
              held_piece := Some i,
              drag_offset := (fst pos - left (p_rect (pieces s ! i)), snd pos - top (p_rect (pieces s ! i)))\<rparr>"
      by blast
    from pick_scan_Some [OF p] have i: "i < COLS * ROWS" "\<not> placed (pieces s ! i)"
      using board_inv_tray_set [OF assms(1)] by (auto simp: hit_def)
    show ?thesis
      by (rule board_inv_transfer [OF assms(1)]) (simp_all add: s' i)
  qed
qed

lemma mouse_down_complete: "mouse_down pos s = Inr s' \<Longrightarrow> complete s' = complete s \<and> slots s' = slots s"
  by (drule mouse_down_cases) auto

lemma mouse_down_total:
  assumes "board_inv s"
  shows "\<exists>s'. mouse_down pos s = Inr s'"
proof -
  have r: "list_all (\<lambda>i. i < length (pieces s)) (rev (shuffled_tray s))"
    using board_inv_tray_set [OF assms] board_inv_length [OF assms] by (simp add: list_all_iff)
  show ?thesis
  proof (cases "find (hit (pieces s) pos) (rev (shuffled_tray s))")
    case None
    then show ?thesis by (simp add: mouse_down_def pick_scan_find [OF r])
  next
    case (Some i)
    then have "pick_scan (pieces s) pos (rev (shuffled_tray s)) = Inr (Some i)"
      by (simp add: pick_scan_find [OF r])
    from pick_scan_Some [OF this] have "i < COLS * ROWS"
      using board_inv_tray_set [OF assms] by simp
    then have "map_tiles (p_index (pieces s ! i)) = Inr \<lparr>tile_of = i, side = TILE_SIZE\<rparr>"
      using board_inv_index [OF assms] by (simp add: map_tiles_def)
    then show ?thesis
      using Some by (simp add: mouse_down_def pick_scan_find [OF r] Let_def)
  qed
qed

subsection \<open>Pointer motion\<close>

lemma board_inv_mouse_motion:
  assumes "board_inv s"
  shows "board_inv (mouse_motion pos s)"
proof (cases "held_piece s")
  case None
  then show ?thesis using assms by (simp add: mouse_motion_def)
next
  case (Some h)
  show ?thesis
    by (rule board_inv_transfer [OF assms])
      (use Some board_inv_held [OF assms] in \<open>simp_all add: mouse_motion_def\<close>)
qed

lemma mouse_motion_fields:
  "complete (mouse_motion pos s) = complete s \<and> slots (mouse_motion pos s) = slots s \<and>
   held_piece (mouse_motion pos s) = held_piece s \<and>
   map placed (pieces (mouse_motion pos s)) = map placed (pieces s)"
  by (simp add: mouse_motion_def split: option.splits)

subsection \<open>Pointer up\<close>

lemma board_inv_slot_fields:
  assumes "board_inv s" "i < COLS * ROWS"
  shows "s_index (slots s ! i) = i" "s_rect (slots s ! i) = s_rect (Slot i)"
    "filled (slots s ! i) = placed (pieces s ! i)"
  using board_inv_slot [OF assms] by (simp_all add: Slot_def)

lemma drop_scan_board:
  assumes "board_inv s" "h < COLS * ROWS" "\<not> placed (pieces s ! h)"
  shows "drop_scan h pos (slots s) =
     (if collidepoint (s_rect (Slot h)) pos
      then ((slots s)[h := (slots s ! h)\<lparr>filled := True\<rparr>], Some (s_rect (Slot h)))
      else (slots s, None))"
proof (cases "collidepoint (s_rect (Slot h)) pos")
  case True
  have len: "length (slots s) = COLS * ROWS" using board_inv_length [OF assms(1)] by simp
  have before: "\<forall>m<h. filled (slots s ! m) \<or> \<not> collidepoint (s_rect (slots s ! m)) pos"
  proof (intro allI impI)
    fix m assume m: "m < h"
    then have m9: "m < COLS * ROWS" using assms(2) by simp
    have "\<not> collidepoint (s_rect (Slot m)) pos"
      using slot_rect_disjoint [OF m9 assms(2) _ True] m by auto
    then show "filled (slots s ! m) \<or> \<not> collidepoint (s_rect (slots s ! m)) pos"
      by (simp add: board_inv_slot_fields [OF assms(1) m9])
  qed
  have "snd (drop_scan h pos (slots s)) = Some (s_rect (Slot h))"
    using drop_scan_first [of h "slots s" pos h, OF _ _ _ before] len assms(2,3) True
    by (simp add: board_inv_slot_fields [OF assms(1,2)])
  moreover from drop_scan_Some [OF this] obtain n where n: "n < length (slots s)"
    "s_index (slots s ! n) = h"
    "fst (drop_scan h pos (slots s)) = (slots s)[n := (slots s ! n)\<lparr>filled := True\<rparr>]"
    by blast
  moreover have "n = h"
    using n(1,2) len board_inv_slot_fields(1) [OF assms(1), of n] by simp
  ultimately show ?thesis
    using True by (simp add: prod_eq_iff)
next
  case False
  have "snd (drop_scan h pos (slots s)) = None"
  proof (rule ccontr)
    assume "snd (drop_scan h pos (slots s)) \<noteq> None"
    then obtain rc where "snd (drop_scan h pos (slots s)) = Some rc" by auto
    from drop_scan_Some [OF this] obtain n where n: "n < length (slots s)"
      "collidepoint (s_rect (slots s ! n)) pos" "s_index (slots s ! n) = h"
      by blast
    have n9: "n < COLS * ROWS" using n(1) board_inv_length [OF assms(1)] by simp
    have "n = h" using n(3) board_inv_slot_fields(1) [OF assms(1) n9] by simp
    with n(2) False show False
      by (simp add: board_inv_slot_fields(2) [OF assms(1,2)])
  qed
  with drop_scan_None [OF this] False show ?thesis
    by (simp add: prod_eq_iff)
qed

lemma mouse_up_held:
  assumes "board_inv s" "held_piece s = Some h" "\<not> complete s"
  shows "mouse_up pos s = and_then (layout_tray (dropped h pos s)) (\<lambda>s2. Inr (win_check s2))"
proof -
  have h: "h < COLS * ROWS" "\<not> placed (pieces s ! h)"
    using board_inv_held [OF assms(1,2)] by simp_all
  have ix: "p_index (pieces s ! h) = h" using board_inv_index [OF assms(1) h(1)] .
  have mt: "map_tiles h = Inr \<lparr>tile_of = h, side = TILE_SIZE\<rparr>"
    using h(1) by (simp add: map_tiles_def)
  have eq: "s\<lparr>slots := slots s, pieces := pieces s, held_piece := None\<rparr> = s\<lparr>held_piece := None\<rparr>"
    by simp
  show ?thesis
    unfolding mouse_up_def
    by (simp add: assms(2,3) Let_def ix drop_scan_board [OF assms(1) h] mt dropped_def scale_def
        win_check_def eq if_distrib [of Inr] cong: if_cong)
qed

lemma board_inv_dropped:
  assumes "board_inv s" "held_piece s = Some h"
  shows "board_inv (dropped h pos s)"
proof -
  have h: "h < COLS * ROWS" "\<not> placed (pieces s ! h)"
    using board_inv_held [OF assms(1,2)] by simp_all
  have len: "length (pieces s) = COLS * ROWS" "length (slots s) = COLS * ROWS"
    using board_inv_length [OF assms(1)] by simp_all
  show ?thesis
  proof (cases "collidepoint (s_rect (Slot h)) pos")
    case False
    then have d: "dropped h pos s = s\<lparr>held_piece := None\<rparr>" by (simp add: dropped_def)
    show ?thesis unfolding d
      by (rule board_inv_transfer [OF assms(1)]) simp_all
  next
    case True
    have "p_index (pieces (dropped h pos s) ! i) = i \<and>
          slots (dropped h pos s) ! i = (Slot i)\<lparr>filled := placed (pieces (dropped h pos s) ! i)\<rparr>"
      if "i < COLS * ROWS" for i
      using that True len board_inv_index [OF assms(1) that] board_inv_slot [OF assms(1) that]
      by (cases "i = h") (simp_all add: dropped_def)
    then show ?thesis
      using True len board_inv_tray [OF assms(1)]
      by (simp add: board_inv_def dropped_def list_all_iff)
  qed
qed

lemma game_inv_win_check:
  assumes "board_inv s" "\<not> complete s"
  shows "game_inv (win_check s)"
proof -
  have "board_inv (win_check s)"
    by (rule board_inv_transfer [OF assms(1)])
      (use board_inv_held [OF assms(1)] in \<open>simp_all add: win_check_def split: if_splits\<close>)
  then show ?thesis using assms(2) by (simp add: game_inv_def win_check_def)
qed

lemma game_inv_mouse_up:
  assumes "game_inv s"
  shows "\<exists>s'. mouse_up pos s = Inr s' \<and> game_inv s'"
proof (cases "held_piece s")
  case None
  then show ?thesis using assms by (simp add: mouse_up_def)
next
  case (Some h)
  show ?thesis
  proof (cases "complete s")
    case True
    then show ?thesis using assms Some by (simp add: mouse_up_def)
  next
    case False
    have b: "board_inv s" using assms by (rule game_inv_board)
    have b1: "board_inv (dropped h pos s)" using b Some by (rule board_inv_dropped)
    from board_inv_layout_total [OF b1] obtain s2 where l: "layout_tray (dropped h pos s) = Inr s2" ..
    have b2: "board_inv s2" using b1 l by (rule board_inv_layout)
    have "complete s2 = complete (dropped h pos s)" using layout_tray_fields [OF l] by simp
    then have "\<not> complete s2" using False by (simp add: dropped_def)
    with b2 have "game_inv (win_check s2)" by (rule game_inv_win_check)
    then show ?thesis by (simp add: mouse_up_held [OF b Some False] l)
  qed
qed

subsection \<open>Starting and restarting\<close>

lemma reset_pieces_result: "reset_pieces ps = Inr ps' \<Longrightarrow> ps' = map fresh ps"
  by (induction ps arbitrary: ps') (auto simp: and_then_Inr_iff map_tiles_Inr_iff fresh_def)

lemma reset_pieces_total:
  "\<forall>p \<in> set ps. p_index p < COLS * ROWS \<Longrightarrow> reset_pieces ps = Inr (map fresh ps)"
  by (induction ps) (simp_all add: map_tiles_def fresh_def)

lemma board_inv_reset:
  assumes "board_inv s" "mset t = mset (shuffled_tray s)"
  shows "\<exists>s1. reset_state t s = Inr s1 \<and> board_inv s1 \<and> \<not> complete s1 \<and>
           \<not> list_all filled (slots s1)"
proof -
  have len: "length (pieces s) = COLS * ROWS" "length (slots s) = COLS * ROWS"
    using board_inv_length [OF assms(1)] by simp_all
  have "\<forall>p \<in> set (pieces s). p_index p < COLS * ROWS"
  proof
    fix p assume "p \<in> set (pieces s)"
    then obtain i where "i < length (pieces s)" "p = pieces s ! i" by (metis in_set_conv_nth)
    then show "p_index p < COLS * ROWS" using len board_inv_index [OF assms(1), of i] by simp
  qed
  then have r: "reset_pieces (pieces s) = Inr (map fresh (pieces s))" by (rule reset_pieces_total)
  let ?s1 = "s\<lparr>shuffled_tray := t, pieces := map fresh (pieces s),
              slots := map (\<lambda>sl. sl\<lparr>filled := False\<rparr>) (slots s),
              held_piece := None, complete := False, win_timer := 0\<rparr>"
  have rs: "reset_state t s = Inr ?s1" by (simp add: reset_state_def r)
  have "p_index (pieces ?s1 ! i) = i \<and>
        slots ?s1 ! i = (Slot i)\<lparr>filled := placed (pieces ?s1 ! i)\<rparr>" if "i < COLS * ROWS" for i
    using that len board_inv_index [OF assms(1) that] board_inv_slot [OF assms(1) that]
    by (simp add: fresh_def)
  then have b: "board_inv ?s1"
    using len assms(2) board_inv_tray [OF assms(1)] by (simp add: board_inv_def list_all_iff)
  have "\<not> list_all filled (slots ?s1)"
    using len by (cases "slots s") (simp_all add: nine)
  with rs b show ?thesis by simp
qed

lemma game_inv_new_game:
  assumes "board_inv s" "mset t = mset (shuffled_tray s)"
  shows "\<exists>s'. new_game t s = Inr s' \<and> game_inv s' \<and> running s'"
proof -
  from board_inv_reset [OF assms] obtain s1 where s1: "reset_state t s = Inr s1" "board_inv s1"
    "\<not> complete s1" "\<not> list_all filled (slots s1)" by blast
  from board_inv_layout_total [OF s1(2)] obtain s2 where l: "layout_tray s1 = Inr s2" ..
  have b2: "board_inv s2" using s1(2) l by (rule board_inv_layout)
  have f: "slots s2 = slots s1" "complete s2 = complete s1" "held_piece s2 = held_piece s1"
    using layout_tray_fields [OF l] by simp_all
  have "board_inv (s2\<lparr>running := True\<rparr>)"
    by (rule board_inv_transfer [OF b2]) (use board_inv_held [OF b2] in simp_all)
  then have "game_inv (s2\<lparr>running := True\<rparr>)"
    using f s1(3,4) by (simp add: game_inv_def)
  then show ?thesis by (simp add: new_game_def s1(1) l)
qed

lemma board_inv_module_state:
  assumes "mset t0 = mset [0..<COLS * ROWS]"
  shows "\<exists>s. module_state t0 = Inr s \<and> board_inv s \<and> shuffled_tray s = t0"
proof -
  let ?s0 = "\<lparr>pieces = map Piece [0..<COLS * ROWS], slots = map Slot [0..<COLS * ROWS],
        shuffled_tray = t0, held_piece = None, drag_offset = (0, 0),
        complete = False, win_timer = 0, running = False\<rparr>"
  have b: "board_inv ?s0"
    using assms by (simp add: board_inv_def list_all_iff Piece_def Slot_def)
  from board_inv_layout_total [OF b] obtain s where l: "layout_tray ?s0 = Inr s" ..
  have "board_inv s" using b l by (rule board_inv_layout)
  moreover have "shuffled_tray s = t0" using layout_tray_fields [OF l] by simp
  ultimately show ?thesis using l by (simp add: module_state_def)
qed

lemma game_inv_init_game:
  assumes "mset t0 = mset [0..<COLS * ROWS]" "mset t = mset t0"
  shows "\<exists>s. init_game t0 t = Inr s \<and> game_inv s \<and> running s"
proof -
  from board_inv_module_state [OF assms(1)] obtain s0 where
    s0: "module_state t0 = Inr s0" "board_inv s0" "shuffled_tray s0 = t0" by blast
  from game_inv_new_game [OF s0(2), of t] assms(2) s0(3) show ?thesis
    by (simp add: init_game_def s0(1))
qed

subsection \<open>The invariant holds in every reachable state\<close>

lemma game_inv_mouse_down:
  assumes "game_inv s" "mouse_down pos s = Inr s'"
  shows "game_inv s'"
  using board_inv_mouse_down [OF game_inv_board [OF assms(1)] assms(2)]
    mouse_down_complete [OF assms(2)] game_inv_complete [OF assms(1)]
  by (simp add: game_inv_def)

lemma game_inv_mouse_motion:
  assumes "game_inv s"
  shows "game_inv (mouse_motion pos s)"
  using board_inv_mouse_motion [OF game_inv_board [OF assms]] game_inv_complete [OF assms]
  by (simp add: game_inv_def mouse_motion_fields)

lemma game_inv_running:
  assumes "game_inv s"
  shows "game_inv (s\<lparr>running := b\<rparr>)"
proof -
  have "board_inv (s\<lparr>running := b\<rparr>)"
    by (rule board_inv_transfer [OF game_inv_board [OF assms]])
      (use board_inv_held [OF game_inv_board [OF assms]] in simp_all)
  then show ?thesis using game_inv_complete [OF assms] by (simp add: game_inv_def)
qed

lemma game_inv_win_timer:
  assumes "game_inv s"
  shows "game_inv (s\<lparr>win_timer := w\<rparr>)"
proof -
  have "board_inv (s\<lparr>win_timer := w\<rparr>)"
    by (rule board_inv_transfer [OF game_inv_board [OF assms]])
      (use board_inv_held [OF game_inv_board [OF assms]] in simp_all)
  then show ?thesis using game_inv_complete [OF assms] by (simp add: game_inv_def)
qed

lemma game_inv_handle_event:
  assumes "game_inv s" "handle_event e s = Inr s'"
  shows "game_inv s'"
proof (cases e)
  case QUIT
  with assms(2) show ?thesis by simp
next
  case (KEYDOWN key)
  with assms show ?thesis by (auto simp: game_inv_running split: if_splits)
next
  case (MOUSEBUTTONDOWN pos button)
  with assms show ?thesis by (auto dest: game_inv_mouse_down split: if_splits)
next
  case (MOUSEMOTION pos)
  with assms show ?thesis by (auto simp: game_inv_mouse_motion)
next
  case (MOUSEBUTTONUP pos button)
  with assms game_inv_mouse_up [OF assms(1), of pos] show ?thesis by (auto split: if_splits)
next
  case OTHER
  with assms show ?thesis by simp
qed

lemma game_inv_end_frame:
  assumes "game_inv s" "mset t = mset (shuffled_tray s)" "end_frame ms t s = Inr s'"
  shows "game_inv s'"
proof -
  let ?s1 = "if complete s then s\<lparr>win_timer := win_timer s + ms\<rparr> else s"
  have g1: "game_inv ?s1" using assms(1) by (simp add: game_inv_win_timer)
  have t1: "mset t = mset (shuffled_tray ?s1)" using assms(2) by simp
  show ?thesis
  proof (cases "running s")
    case True
    with assms(3) g1 show ?thesis by (auto simp: end_frame_def Let_def split: if_splits)
  next
    case False
    then have "new_game t ?s1 = Inr s'"
      using assms(3) by (auto simp: end_frame_def Let_def split: if_splits)
    with game_inv_new_game [OF game_inv_board [OF g1] t1] show ?thesis by auto
  qed
qed

lemma reach_game_inv: "reach s \<Longrightarrow> game_inv s"
proof (induction rule: reach.induct)
  case (start t0 t s)
  with game_inv_init_game [OF start(1,2)] show ?case by auto
next
  case (event s e s')
  then show ?case by (auto intro: game_inv_handle_event)
next
  case (frame s ms t s')
  then show ?case by (auto intro: game_inv_end_frame)
qed

section \<open>The tray layout\<close>

subsection \<open>The layout reads only indices and placed flags\<close>

lemma place_tray_cong:
  assumes "length ps = length qs" "map p_index ps = map p_index qs" "map placed ps = map placed qs"
    "\<forall>k. k \<notin> set ks \<longrightarrow> ps ! k = qs ! k" "\<forall>k \<in> set ks. k < length ps"
  shows "place_tray n ks ps = place_tray n ks qs"
  using assms
proof (induction ks arbitrary: n ps qs)
  case Nil
  then have "ps = qs" by (intro nth_equalityI) simp_all
  then show ?case by simp
next
  case (Cons a ks)
  have a: "a < length ps" using Cons.prems(5) by simp
  have ix: "p_index (ps ! a) = p_index (qs ! a)"
    using Cons.prems(1,2) a by (metis nth_map)
  have pl: "placed (ps ! a) = placed (qs ! a)"
    using Cons.prems(1,3) a by (metis nth_map)
  show ?case
  proof (cases "map_tiles (p_index (qs ! a))")
    case (Inl e)
    then show ?thesis by (simp add: ix)
  next
    case (Inr t)
    let ?u = "\<lambda>p. p\<lparr>p_rect := tray_rect n, p_image := scale t tile_w\<rparr>"
    have same: "?u (ps ! a) = ?u (qs ! a)"
      using ix pl by (cases "ps ! a", cases "qs ! a") simp
    have "place_tray (Suc n) ks (ps[a := ?u (ps ! a)]) = place_tray (Suc n) ks (qs[a := ?u (qs ! a)])"
    proof (rule Cons.IH)
      show "length (ps[a := ?u (ps ! a)]) = length (qs[a := ?u (qs ! a)])"
        using Cons.prems(1) by simp
      show "map p_index (ps[a := ?u (ps ! a)]) = map p_index (qs[a := ?u (qs ! a)])"
        using Cons.prems(2) by simp
      show "map placed (ps[a := ?u (ps ! a)]) = map placed (qs[a := ?u (qs ! a)])"
        using Cons.prems(3) by simp
      show "\<forall>k. k \<notin> set ks \<longrightarrow> ps[a := ?u (ps ! a)] ! k = qs[a := ?u (qs ! a)] ! k"
      proof (intro allI impI)
        fix k assume k: "k \<notin> set ks"
        show "ps[a := ?u (ps ! a)] ! k = qs[a := ?u (qs ! a)] ! k"
        proof (cases "k = a")
          case True
          then show ?thesis using a Cons.prems(1) same by simp
        next
          case False
          then have "ps ! k = qs ! k" using k Cons.prems(4) by simp
          then show ?thesis using False by simp
        qed
      qed
      show "\<forall>k \<in> set ks. k < length (ps[a := ?u (ps ! a)])"
        using Cons.prems(5) by simp
    qed
    then show ?thesis using Inr by (simp add: ix)
  qed
qed

lemma layout_tray_parts:
  assumes "layout_tray s = Inr s'"
  shows "\<exists>ps. (\<forall>i \<in> set (shuffled_tray s). i < length (pieces s)) \<and>
     place_tray 0 (filter (\<lambda>i. \<not> placed (pieces s ! i)) (shuffled_tray s)) (pieces s) = Inr ps \<and>
     s' = s\<lparr>pieces := ps\<rparr>"
  using assms by (auto simp: layout_tray_def and_then_Inr_iff unplaced_Inr_iff)

lemma layout_tray_again:
  assumes "layout_tray s = Inr s'"
  shows "layout_tray s' = Inr s'"
proof -
  let ?ks = "filter (\<lambda>i. \<not> placed (pieces s ! i)) (shuffled_tray s)"
  from layout_tray_parts [OF assms] obtain ps where
    r: "\<forall>i \<in> set (shuffled_tray s). i < length (pieces s)"
    and p: "place_tray 0 ?ks (pieces s) = Inr ps" and s': "s' = s\<lparr>pieces := ps\<rparr>" by blast
  have k: "length ps = length (pieces s)" "map p_index ps = map p_index (pieces s)"
    "map placed ps = map placed (pieces s)"
    using place_tray_keeps [OF p] by simp_all
  have pl: "placed (ps ! i) = placed (pieces s ! i)" if "i \<in> set (shuffled_tray s)" for i
    using k(1,3) r that by (metis nth_map)
  have ks: "filter (\<lambda>i. \<not> placed (ps ! i)) (shuffled_tray s) = ?ks"
    by (rule filter_cong) (simp_all add: pl)
  have u: "unplaced ps (shuffled_tray s) = Inr ?ks"
    using r k(1) ks by (simp add: unplaced_Inr_iff)
  have "place_tray 0 ?ks ps = place_tray 0 ?ks (pieces s)"
    by (rule place_tray_cong) (use k r place_tray_others [OF p] in auto)
  then show ?thesis
    using u p by (simp add: layout_tray_def s')
qed

lemma layout_tray_rects:
  assumes "layout_tray s = Inr s'" "distinct (shuffled_tray s)"
    "n < length (filter (\<lambda>i. \<not> placed (pieces s ! i)) (shuffled_tray s))"
  shows "p_rect (pieces s' ! (filter (\<lambda>i. \<not> placed (pieces s ! i)) (shuffled_tray s) ! n)) = tray_rect n \<and>
     p_image (pieces s' ! (filter (\<lambda>i. \<not> placed (pieces s ! i)) (shuffled_tray s) ! n)) =
       \<lparr>tile_of = p_index (pieces s ! (filter (\<lambda>i. \<not> placed (pieces s ! i)) (shuffled_tray s) ! n)),
        side = tile_w\<rparr>"
proof -
  let ?ks = "filter (\<lambda>i. \<not> placed (pieces s ! i)) (shuffled_tray s)"
  from layout_tray_parts [OF assms(1)] obtain ps where
    r: "\<forall>i \<in> set (shuffled_tray s). i < length (pieces s)"
    and p: "place_tray 0 ?ks (pieces s) = Inr ps" and s': "s' = s\<lparr>pieces := ps\<rparr>" by blast
  have "p_rect (ps ! (?ks ! n)) = tray_rect (0 + n) \<and>
        p_image (ps ! (?ks ! n)) = \<lparr>tile_of = p_index (pieces s ! (?ks ! n)), side = tile_w\<rparr>"
    by (rule place_tray_rects [OF p]) (use assms(2,3) r in auto)
  then show ?thesis by (simp add: s')
qed

section \<open>Runs of events\<close>

lemma projr_Inr: "\<exists>y. m = Inr y \<Longrightarrow> m = Inr (projr m)"
  by auto

lemma handle_event_total:
  assumes "game_inv s" "e \<noteq> QUIT"
  shows "\<exists>s'. handle_event e s = Inr s'"
proof (cases e)
  case (MOUSEBUTTONDOWN pos button)
  then show ?thesis using mouse_down_total [OF game_inv_board [OF assms(1)], of pos] by simp
next
  case (MOUSEBUTTONUP pos button)
  then show ?thesis using game_inv_mouse_up [OF assms(1), of pos] by auto
qed (use assms(2) in simp_all)

lemma reach_run_events:
  "reach s \<Longrightarrow> QUIT \<notin> set es \<Longrightarrow> \<exists>s'. run_events es s = Inr s' \<and> reach s'"
proof (induction es arbitrary: s)
  case Nil
  then show ?case by simp
next
  case (Cons e es)
  from handle_event_total [OF reach_game_inv [OF Cons.prems(1)], of e] Cons.prems(2)
  obtain s1 where s1: "handle_event e s = Inr s1" by auto
  then have "reach s1" using Cons.prems(1) by (auto intro: reach.event)
  from Cons.IH [OF this] Cons.prems(2) s1 show ?case by simp
qed

lemma held_not_complete:
  assumes "game_inv s" "held_piece s = Some h"
  shows "\<not> complete s"
proof
  assume "complete s"
  then have "\<forall>i<COLS * ROWS. placed (pieces s ! i)"
    using game_inv_complete [OF assms(1)] board_inv_all_filled [OF game_inv_board [OF assms(1)]]
    by simp
  then show False using board_inv_held [OF game_inv_board [OF assms(1)] assms(2)] by blast
qed

lemma nth_map_eq: "map f xs = map f ys \<Longrightarrow> i < length xs \<Longrightarrow> f (xs ! i) = f (ys ! i)"
  by (metis length_map nth_map)

lemma win_check_fields:
  "pieces (win_check s) = pieces s" "slots (win_check s) = slots s"
  "held_piece (win_check s) = held_piece s" "shuffled_tray (win_check s) = shuffled_tray s"
  by (simp_all add: win_check_def)

text \<open>The outcome of a pointer-up while piece \<open>h\<close> is held.\<close>

lemma mouse_up_outcome:
  assumes "game_inv s" "held_piece s = Some h"
  shows "\<exists>s2. layout_tray (dropped h pos s) = Inr s2 \<and> mouse_up pos s = Inr (win_check s2)"
proof -
  have b: "board_inv s" using assms(1) by (rule game_inv_board)
  have b1: "board_inv (dropped h pos s)" using b assms(2) by (rule board_inv_dropped)
  from board_inv_layout_total [OF b1] obtain s2 where l: "layout_tray (dropped h pos s) = Inr s2" ..
  then show ?thesis
    using mouse_up_held [OF b assms(2) held_not_complete [OF assms]] by simp
qed

lemma handle_event_running:
  assumes "game_inv s" "handle_event e s = Inr s'" "\<not> running s"
  shows "\<not> running s'"
proof (cases e)
  case (MOUSEBUTTONDOWN pos button)
  then show ?thesis using assms(2,3) by (auto dest!: mouse_down_cases split: if_splits)
next
  case (MOUSEMOTION pos)
  then show ?thesis using assms(2,3) by (auto simp: mouse_motion_def split: option.splits)
next
  case (MOUSEBUTTONUP pos button)
  show ?thesis
  proof (cases "held_piece s")
    case None
    then show ?thesis using MOUSEBUTTONUP assms(2,3) by (auto simp: mouse_up_def split: if_splits)
  next
    case (Some h)
    from mouse_up_outcome [OF assms(1) Some, of pos] obtain s2 where
      l: "layout_tray (dropped h pos s) = Inr s2" and m: "mouse_up pos s = Inr (win_check s2)"
      by blast
    have "running (win_check s2) = running s"
      using layout_tray_fields [OF l] by (simp add: win_check_def dropped_def)
    then show ?thesis using MOUSEBUTTONUP assms(2,3) m by (auto split: if_splits)
  qed
qed (use assms(2,3) in \<open>auto split: if_splits\<close>)

lemma run_events_reach:
  "reach s \<Longrightarrow> run_events es s = Inr s' \<Longrightarrow> reach s' \<and> (\<not> running s \<longrightarrow> \<not> running s')"
proof (induction es arbitrary: s)
  case Nil
  then show ?case by simp
next
  case (Cons e es)
  from Cons.prems(2) obtain s1 where s1: "handle_event e s = Inr s1" "run_events es s1 = Inr s'"
    by (auto simp: and_then_Inr_iff)
  have r1: "reach s1" using Cons.prems(1) s1(1) by (rule reach.event)
  from Cons.IH [OF r1 s1(2)] handle_event_running [OF reach_game_inv [OF Cons.prems(1)] s1(1)]
  show ?case by auto
qed

lemma reset_state_result:
  assumes "board_inv s"
  shows "reset_state t s = Inr (s\<lparr>shuffled_tray := t, pieces := map fresh (pieces s),
              slots := map (\<lambda>sl. sl\<lparr>filled := False\<rparr>) (slots s),
              held_piece := None, complete := False, win_timer := 0\<rparr>)"
proof -
  have "\<forall>p \<in> set (pieces s). p_index p < COLS * ROWS"
  proof
    fix p assume "p \<in> set (pieces s)"
    then obtain i where "i < length (pieces s)" "p = pieces s ! i" by (metis in_set_conv_nth)
    then show "p_index p < COLS * ROWS"
      using board_inv_length [OF assms] board_inv_index [OF assms, of i] by simp
  qed
  then show ?thesis by (simp add: reset_state_def reset_pieces_total)
qed

lemma reset_state_win_timer: "reset_state t (s\<lparr>win_timer := w\<rparr>) = reset_state t s"
  by (simp add: reset_state_def)

section \<open>The example runs are reachable\<close>

lemma scenario_mset: "mset scenario_tray = mset [0..<COLS * ROWS]"
proof -
  have "sort scenario_tray = [0..<COLS * ROWS]" by code_simp
  then show ?thesis by (metis mset_sort)
qed

lemma reach_demo_start: "reach demo_start"
proof -
  have a: "mset [0..<9] = mset [0..<COLS * ROWS]" by (simp add: nine)
  have b: "mset scenario_tray = mset [0..<9]" using scenario_mset by (simp add: nine)
  from game_inv_init_game [OF a b] have "init_game [0..<9] scenario_tray = Inr demo_start"
    unfolding demo_start_def by (intro projr_Inr) blast
  with a b show ?thesis by (rule reach.start)
qed

lemma reach_demo:
  assumes "QUIT \<notin> set es"
  shows "reach (projr (run_events es demo_start))"
  using reach_run_events [OF reach_demo_start assms] by auto

lemma reach_demo_held: "reach demo_held"
  unfolding demo_held_def by (rule reach_demo) simp

lemma reach_demo_mid: "reach demo_mid"
  unfolding demo_mid_def by (rule reach_demo) simp

lemma reach_demo_won: "reach demo_won"
  unfolding demo_won_def by (rule reach_demo) (auto simp: win_events_def)

section \<open>What is drawn, and the scan in reverse tray order\<close>

lemma board_inv_slots_eq:
  assumes "board_inv s"
  shows "slots s = map (\<lambda>i. (Slot i)\<lparr>filled := placed (pieces s ! i)\<rparr>) [0..<COLS * ROWS]"
  using board_inv_length [OF assms] board_inv_slot [OF assms]
  by (intro nth_equalityI) simp_all

lemma board_inv_placed_pieces:
  assumes "board_inv s"
  shows "placed_pieces s = filter (\<lambda>i. placed (pieces s ! i)) [0..<COLS * ROWS]"
  unfolding placed_pieces_def
  by (subst board_inv_slots_eq [OF assms]) (simp add: filter_map o_def Slot_def)

lemma count_upt: "count (mset [0..<n]) x = (if x < n then 1 else 0)"
  using distinct_count_atmost_1 [of "[0..<n]"] by simp

lemma find_rev_last:
  assumes "find P (rev xs) = Some x"
  shows "\<exists>n<length xs. xs ! n = x \<and> P x \<and> (\<forall>m<length xs. n < m \<longrightarrow> \<not> P (xs ! m))"
proof -
  from assms have "\<exists>i<length (rev xs). P (rev xs ! i) \<and> x = rev xs ! i \<and> (\<forall>j<i. \<not> P (rev xs ! j))"
    by (rule find_Some_iff [THEN iffD1])
  then obtain i where i: "i < length xs" "P (rev xs ! i)" "x = rev xs ! i"
    "\<forall>j<i. \<not> P (rev xs ! j)"
    by force
  let ?n = "length xs - Suc i"
  have n: "?n < length xs" using i(1) by simp
  have x: "xs ! ?n = x" using i(1) unfolding i(3) by (simp only: rev_nth)
  have "\<not> P (xs ! m)" if "m < length xs" "?n < m" for m
  proof -
    have j: "length xs - Suc m < i" using that i(1) by linarith
    have "length xs - Suc m < length xs" using that(1) by simp
    then have "rev xs ! (length xs - Suc m) = xs ! (length xs - Suc (length xs - Suc m))"
      by (rule rev_nth)
    moreover have "length xs - Suc (length xs - Suc m) = m" using that(1) by linarith
    ultimately have "rev xs ! (length xs - Suc m) = xs ! m" by simp
    with i(4) j show ?thesis by metis
  qed
  with n x i(2) show ?thesis unfolding i(3) by blast
qed

lemma find_hd_filter: "find P ys = Some x \<Longrightarrow> filter P ys \<noteq> [] \<and> hd (filter P ys) = x"
  by (induction ys) (auto split: if_splits)

lemma find_rev_last_filter:
  assumes "find P (rev xs) = Some x"
  shows "filter P xs \<noteq> [] \<and> last (filter P xs) = x"
proof -
  from find_hd_filter [OF assms] have "rev (filter P xs) \<noteq> []" "hd (rev (filter P xs)) = x"
    by (simp_all add: rev_filter)
  then show ?thesis by (simp add: hd_rev)
qed

lemma last_filter_conj:
  "filter P xs \<noteq> [] \<Longrightarrow> Q (last (filter P xs)) \<Longrightarrow>
     filter (\<lambda>i. P i \<and> Q i) xs \<noteq> [] \<and> last (filter (\<lambda>i. P i \<and> Q i) xs) = last (filter P xs)"
proof (induction xs)
  case Nil
  then show ?case by simp
next
  case (Cons a xs)
  show ?case
  proof (cases "filter P xs = []")
    case True
    then have "filter (\<lambda>i. P i \<and> Q i) xs = []" by (simp add: filter_empty_conv)
    with True Cons.prems show ?thesis by (auto split: if_splits)
  next
    case False
    with Cons.prems(2) have "Q (last (filter P xs))" by (simp split: if_splits)
    from Cons.IH [OF False this] False show ?thesis by simp
  qed
qed

text \<open>
  What a press of button 1 does when two unplaced pieces, at positions \<open>a < b\<close> of the tray
  order, are under the pointer: the scan over the reversed tray order stops at the piece
  under the pointer with the greatest position \<open>n\<close> in the tray order. A held piece is
  scanned like any other unplaced piece, at its place in the tray order.
\<close>

lemma pick_scan_latest_in_tray_order:
  assumes "reach s" "\<not> complete s" "a < b" "b < length (shuffled_tray s)"
    "hit (pieces s) pos (shuffled_tray s ! a)" "hit (pieces s) pos (shuffled_tray s ! b)"
  shows "\<exists>s' n. handle_event (MOUSEBUTTONDOWN pos 1) s = Inr s' \<and>
     pick_scan (pieces s) pos (rev (shuffled_tray s)) = Inr (Some (shuffled_tray s ! n)) \<and>
     held_piece s' = Some (shuffled_tray s ! n) \<and> b \<le> n \<and> n < length (shuffled_tray s) \<and>
     shuffled_tray s ! n \<noteq> shuffled_tray s ! a \<and>
     hit (pieces s) pos (shuffled_tray s ! n) \<and>
     (\<forall>m<length (shuffled_tray s). n < m \<longrightarrow> \<not> hit (pieces s) pos (shuffled_tray s ! m)) \<and>
     (held_piece s \<noteq> Some (shuffled_tray s ! n) \<longrightarrow>
        last (filter (hit (pieces s) pos) (tray_pieces s)) = shuffled_tray s ! n)"
proof -
  let ?tray = "shuffled_tray s"
  have bi: "board_inv s" using assms(1) by (intro game_inv_board reach_game_inv)
  have r: "list_all (\<lambda>i. i < length (pieces s)) (rev ?tray)"
    using board_inv_tray_set [OF bi] board_inv_length [OF bi] by (simp add: list_all_iff)
  have p: "pick_scan (pieces s) pos (rev ?tray) = Inr (find (hit (pieces s) pos) (rev ?tray))"
    using r by (rule pick_scan_find)
  have "?tray ! b \<in> set (rev ?tray)" using assms(4) by simp
  with assms(6) have "find (hit (pieces s) pos) (rev ?tray) \<noteq> None"
    by (auto simp: find_None_iff)
  then obtain x where x: "find (hit (pieces s) pos) (rev ?tray) = Some x" by auto
  from find_rev_last [OF x] obtain n where n: "n < length ?tray" "?tray ! n = x"
    "hit (pieces s) pos x" "\<forall>m<length ?tray. n < m \<longrightarrow> \<not> hit (pieces s) pos (?tray ! m)"
    by blast
  have bn: "b \<le> n" using n(4) assms(4,6) by (meson not_le)
  have ne: "?tray ! n \<noteq> ?tray ! a"
    using board_inv_tray_distinct [OF bi] bn assms(3) n(1) by (simp add: nth_eq_iff_index_eq)
  have "x < COLS * ROWS"
    using n(1,2) board_inv_tray_set [OF bi] by (metis atLeastLessThan_iff nth_mem)
  then have "map_tiles (p_index (pieces s ! x)) = Inr \<lparr>tile_of = x, side = TILE_SIZE\<rparr>"
    using board_inv_index [OF bi] by (simp add: map_tiles_def)
  then have md: "\<exists>s'. mouse_down pos s = Inr s' \<and> held_piece s' = Some x"
    using p x assms(2) by (simp add: mouse_down_def Let_def)
  have drawn: "last (filter (hit (pieces s) pos) (tray_pieces s)) = x" if "held_piece s \<noteq> Some x"
  proof -
    have "filter (hit (pieces s) pos) (tray_pieces s) =
          filter (\<lambda>i. hit (pieces s) pos i \<and> held_piece s \<noteq> Some i) ?tray"
      unfolding tray_pieces_def filter_filter by (rule filter_cong) (auto simp: hit_def)
    moreover from find_rev_last_filter [OF x] that
    have "last (filter (\<lambda>i. hit (pieces s) pos i \<and> held_piece s \<noteq> Some i) ?tray) = x"
      using last_filter_conj [of "hit (pieces s) pos" ?tray "\<lambda>i. held_piece s \<noteq> Some i"] by simp
    ultimately show ?thesis by simp
  qed
  from md obtain s' where s': "mouse_down pos s = Inr s'" "held_piece s' = Some x" by blast
  show ?thesis
    using s' p x n bn ne drawn by (intro exI [of _ s'] exI [of _ n]) simp
qed

section \<open>The claims\<close>

subsection \<open>Dropping the held piece\<close>

text \<open>
  Claim C2: in a reachable state in which the piece with home index \<open>k\<close> is held, a release
  of button 1 at a point inside the rectangle of an unfilled slot \<open>j\<close> leaves piece \<open>k\<close>
  placed and slot \<open>j\<close> filled if and only if \<open>j = k\<close>. In every other case (the point is in
  no slot, in a filled slot, or in a slot other than \<open>k\<close>) no placed flag and no filled flag
  changes, and the piece is back among the tray pieces at the rectangle the layout gives
  to its position. In both cases the handler returns and nothing is held afterwards.
\<close>

theorem drop_on_slot:
  assumes "reach s" "held_piece s = Some k"
  shows "\<exists>s'. handle_event (MOUSEBUTTONUP pos 1) s = Inr s' \<and> held_piece s' = None \<and>
     p_index (pieces s ! k) = k \<and>
     (\<forall>j<COLS * ROWS. \<not> filled (slots s ! j) \<and> collidepoint (s_rect (slots s ! j)) pos \<longrightarrow>
        (placed (pieces s' ! k) \<and> filled (slots s' ! j)) = (j = k)) \<and>
     (\<not> (\<not> filled (slots s ! k) \<and> collidepoint (s_rect (slots s ! k)) pos) \<longrightarrow>
        map placed (pieces s') = map placed (pieces s) \<and>
        map filled (slots s') = map filled (slots s) \<and>
        (\<exists>n<length (tray_pieces s'). tray_pieces s' ! n = k \<and>
           p_rect (pieces s' ! k) = tray_rect n))"
proof -
  have g: "game_inv s" using assms(1) by (rule reach_game_inv)
  have b: "board_inv s" using g by (rule game_inv_board)
  have k: "k < COLS * ROWS" "\<not> placed (pieces s ! k)" using board_inv_held [OF b assms(2)] by simp_all
  have len: "length (pieces s) = COLS * ROWS" "length (slots s) = COLS * ROWS"
    using board_inv_length [OF b] by simp_all
  let ?d = "dropped k pos s"
  from mouse_up_outcome [OF g assms(2), of pos] obtain s2 where
    l: "layout_tray ?d = Inr s2" and m: "mouse_up pos s = Inr (win_check s2)" by blast
  let ?s' = "win_check s2"
  have f: "slots ?s' = slots ?d" "shuffled_tray ?s' = shuffled_tray ?d"
    "held_piece ?s' = held_piece ?d" "map placed (pieces ?s') = map placed (pieces ?d)"
    using layout_tray_fields [OF l] by (simp_all add: win_check_fields)
  have lend: "length (pieces ?d) = COLS * ROWS" using len by (simp add: dropped_def)
  have lens': "length (pieces ?s') = COLS * ROWS" using f(4) lend by (metis length_map)
  have pl: "placed (pieces ?s' ! i) = placed (pieces ?d ! i)" if "i < COLS * ROWS" for i
    using nth_map_eq [OF f(4)] that lens' by simp
  have held: "held_piece ?s' = None" using f(3) by (simp add: dropped_def)
  have hitslot: "(placed (pieces ?s' ! k) \<and> filled (slots ?s' ! j)) = (j = k)"
    if j: "j < COLS * ROWS" and u: "\<not> filled (slots s ! j)"
      and c: "collidepoint (s_rect (slots s ! j)) pos" for j
  proof (cases "j = k")
    case True
    then have "collidepoint (s_rect (Slot k)) pos"
      using c by (simp add: board_inv_slot_fields [OF b k(1)])
    then show ?thesis using True k(1) len by (simp add: pl f(1)) (simp add: dropped_def)
  next
    case False
    have "collidepoint (s_rect (Slot j)) pos"
      using c by (simp add: board_inv_slot_fields [OF b j])
    then have "\<not> collidepoint (s_rect (Slot k)) pos"
      using slot_rect_disjoint [OF j k(1), of pos] False by blast
    then show ?thesis using False k by (simp add: pl) (simp add: dropped_def)
  qed
  have miss: "map placed (pieces ?s') = map placed (pieces s) \<and>
        map filled (slots ?s') = map filled (slots s) \<and>
        (\<exists>n<length (tray_pieces ?s'). tray_pieces ?s' ! n = k \<and>
           p_rect (pieces ?s' ! k) = tray_rect n)"
    if "\<not> (\<not> filled (slots s ! k) \<and> collidepoint (s_rect (slots s ! k)) pos)"
  proof -
    have "\<not> collidepoint (s_rect (Slot k)) pos"
      using that k by (simp add: board_inv_slot_fields [OF b k(1)])
    then have d: "?d = s\<lparr>held_piece := None\<rparr>" by (simp add: dropped_def)
    have tp: "tray_pieces ?s' = filter (\<lambda>i. \<not> placed (pieces ?d ! i)) (shuffled_tray ?d)"
      unfolding tray_pieces_def f(2)
      by (rule filter_cong) (use board_inv_tray_set [OF b] in \<open>simp_all add: held d pl\<close>)
    have "k \<in> set (tray_pieces ?s')"
      using k board_inv_tray_set [OF b] by (simp add: tp d)
    then obtain n where n: "n < length (tray_pieces ?s')" "tray_pieces ?s' ! n = k"
      by (metis in_set_conv_nth)
    have "distinct (shuffled_tray ?d)" using board_inv_tray_distinct [OF b] by (simp add: d)
    from layout_tray_rects [OF l this, of n] n have "p_rect (pieces s2 ! k) = tray_rect n"
      by (simp add: tp)
    then have p3: "p_rect (pieces ?s' ! k) = tray_rect n" by (simp add: win_check_fields)
    have p1: "map placed (pieces ?s') = map placed (pieces s)" using f(4) by (simp add: d)
    have p2: "map filled (slots ?s') = map filled (slots s)" using f(1) by (simp add: d)
    from n p1 p2 p3 show ?thesis by blast
  qed
  show ?thesis
    using m held hitslot miss board_inv_index [OF b k(1)] by (intro exI [of _ ?s']) simp
qed

theorem drop_on_slot_witness:
  "reach demo_held \<and> held_piece demo_held = Some 4 \<and>
   (\<exists>s'. handle_event (MOUSEBUTTONUP (590, 320) 1) demo_held = Inr s' \<and>
      placed (pieces s' ! 4) \<and> filled (slots s' ! 4) \<and> held_piece s' = None)"
proof -
  have h: "held_piece demo_held = Some 4" by code_simp
  have c: "\<not> filled (slots demo_held ! 4) \<and> collidepoint (s_rect (slots demo_held ! 4)) (590, 320)"
    by code_simp
  from drop_on_slot [OF reach_demo_held h, of "(590, 320)"] c reach_demo_held h
  show ?thesis by (auto simp: nine)
qed

subsection \<open>Completion\<close>

text \<open>
  Claim C3: in every reachable state \<^verbatim>\<open>complete\<close> is true if and only if every slot is
  filled (and there are \<open>COLS * ROWS\<close> slots, so that this is never true of an empty board).
\<close>

theorem complete_iff_all_filled:
  assumes "reach s"
  shows "complete s = (\<forall>sl \<in> set (slots s). filled sl) \<and> length (slots s) = COLS * ROWS"
  using game_inv_complete [OF reach_game_inv [OF assms]]
    board_inv_length [OF game_inv_board [OF reach_game_inv [OF assms]]]
  by (simp add: list_all_iff)

theorem complete_iff_all_filled_witness:
  "reach demo_won \<and> complete demo_won \<and> list_all filled (slots demo_won) \<and>
   reach demo_mid \<and> \<not> complete demo_mid \<and> \<not> list_all filled (slots demo_mid)"
proof -
  have "complete demo_won" "\<not> complete demo_mid" by code_simp+
  then show ?thesis
    using complete_iff_all_filled [OF reach_demo_won] complete_iff_all_filled [OF reach_demo_mid]
      reach_demo_won reach_demo_mid by (simp add: list_all_iff)
qed

subsection \<open>The held piece\<close>

text \<open>
  Claim C4: in every reachable state at most one piece is held, and a held piece is one
  of the pieces and is not placed.
\<close>

theorem one_held_never_placed:
  assumes "reach s"
  shows "length (held_pieces s) \<le> 1 \<and>
    (\<forall>h \<in> set (held_pieces s). h < length (pieces s) \<and> \<not> placed (pieces s ! h))"
proof -
  have b: "board_inv s" using assms by (intro game_inv_board reach_game_inv)
  show ?thesis
    using board_inv_held [OF b] board_inv_length [OF b]
    by (auto simp: held_pieces_def split: option.splits)
qed

theorem one_held_never_placed_witness:
  "reach demo_mid \<and> held_pieces demo_mid = [0] \<and> \<not> placed (pieces demo_mid ! 0)"
proof -
  have "held_pieces demo_mid = [0]" by code_simp
  then show ?thesis
    using one_held_never_placed [OF reach_demo_mid] reach_demo_mid by simp
qed

subsection \<open>Conservation of the pieces\<close>

text \<open>
  Claim C5: in every reachable state the pieces drawn by the tray loop (unplaced and not
  held), the pieces drawn through a filled slot, and the held piece if there is one make
  up the indices \<open>0, \<dots>, COLS * ROWS - 1\<close>, each exactly once.
\<close>

theorem pieces_conserved:
  assumes "reach s"
  shows "mset (tray_pieces s) + mset (placed_pieces s) + mset (held_pieces s) = mset [0..<COLS * ROWS]"
proof -
  define U where "U = mset [0..<COLS * ROWS]"
  have b: "board_inv s" using assms by (intro game_inv_board reach_game_inv)
  have t: "mset (tray_pieces s) =
      filter_mset (\<lambda>i. \<not> placed (pieces s ! i) \<and> held_piece s \<noteq> Some i) U"
    unfolding U_def tray_pieces_def mset_filter board_inv_tray [OF b] ..
  have p: "mset (placed_pieces s) = filter_mset (\<lambda>i. placed (pieces s ! i)) U"
    unfolding U_def board_inv_placed_pieces [OF b] mset_filter ..
  have u: "count U x = (if x < COLS * ROWS then 1 else 0)" for x
    unfolding U_def by (rule count_upt)
  have "mset (tray_pieces s) + mset (placed_pieces s) + mset (held_pieces s) = U"
  proof (rule multiset_eqI)
    fix x
    have h: "count (mset (held_pieces s)) x = (if held_piece s = Some x then 1 else 0)"
      by (simp add: held_pieces_def split: option.splits)
    have hx: "x < COLS * ROWS \<and> \<not> placed (pieces s ! x)" if "held_piece s = Some x"
      using board_inv_held [OF b that] .
    show "count (mset (tray_pieces s) + mset (placed_pieces s) + mset (held_pieces s)) x = count U x"
      using hx by (auto simp: t p h u)
  qed
  then show ?thesis by (simp only: U_def)
qed

theorem pieces_conserved_witness:
  "reach demo_mid \<and> tray_pieces demo_mid = [8, 1, 5, 2, 6, 3, 7] \<and> placed_pieces demo_mid = [4] \<and>
   held_pieces demo_mid = [0] \<and>
   mset [8, 1, 5, 2, 6, 3, 7] + mset [4] + mset [0] = mset [0..<COLS * ROWS]"
proof -
  have e: "tray_pieces demo_mid = [8, 1, 5, 2, 6, 3, 7]" "placed_pieces demo_mid = [4]"
    "held_pieces demo_mid = [0]" by code_simp+
  from pieces_conserved [OF reach_demo_mid] show ?thesis
    using reach_demo_mid unfolding e by simp
qed

subsection \<open>Picking up from overlapping pieces\<close>


subsection \<open>Restart\<close>

text \<open>
  Claim C7: when the restart key is pressed in a reachable state, then, after the
  remaining events \<open>es\<close> of that frame, the end of the frame resets the game. The reset of
  lines 289--297 gives the state \<open>s1\<close>: the tray order is the new shuffle \<open>t\<close>, every piece is
  unplaced and has its image back at the full tile size, every slot is unfilled, nothing
  is held, \<^verbatim>\<open>complete\<close> is false and the win timer is 0. The layout of line 298 then gives
  \<open>s2\<close>, which keeps all of these flags and puts the piece at position \<open>n\<close> of the tray order
  at the \<open>n\<close>-th tray rectangle, with its image scaled to the tray tile width; the next
  frame starts from \<open>s2\<close> with \<^verbatim>\<open>running\<close> set.
\<close>

theorem restart_resets:
  assumes "reach s0" "run_events (KEYDOWN K_r # es) s0 = Inr s" "mset t = mset (shuffled_tray s)"
  shows "\<exists>s1 s2. reset_state t s = Inr s1 \<and> layout_tray s1 = Inr s2 \<and>
     end_frame ms t s = Inr (s2\<lparr>running := True\<rparr>) \<and>
     shuffled_tray s1 = t \<and>
     (\<forall>p \<in> set (pieces s1). \<not> placed p \<and> p_image p = \<lparr>tile_of = p_index p, side = TILE_SIZE\<rparr>) \<and>
     shuffled_tray s2 = t \<and> (\<forall>p \<in> set (pieces s2). \<not> placed p) \<and>
     (\<forall>sl \<in> set (slots s2). \<not> filled sl) \<and> held_piece s2 = None \<and> \<not> complete s2 \<and>
     win_timer s2 = 0 \<and>
     (\<forall>n<length t. p_rect (pieces s2 ! (t ! n)) = tray_rect n \<and>
                    p_image (pieces s2 ! (t ! n)) = \<lparr>tile_of = t ! n, side = tile_w\<rparr>)"
proof -
  have "reach (s0\<lparr>running := False\<rparr>)"
    using assms(1) by (rule reach.event [where e = "KEYDOWN K_r"]) simp
  moreover have "run_events es (s0\<lparr>running := False\<rparr>) = Inr s" using assms(2) by simp
  ultimately have rs: "reach s" and nr: "\<not> running s"
    using run_events_reach [of "s0\<lparr>running := False\<rparr>" es s] by simp_all
  have b: "board_inv s" using rs by (intro game_inv_board reach_game_inv)
  let ?s1 = "s\<lparr>shuffled_tray := t, pieces := map fresh (pieces s),
              slots := map (\<lambda>sl. sl\<lparr>filled := False\<rparr>) (slots s),
              held_piece := None, complete := False, win_timer := 0\<rparr>"
  have r1: "reset_state t s = Inr ?s1" using b by (rule reset_state_result)
  from board_inv_reset [OF b assms(3)] r1 have b1: "board_inv ?s1" by auto
  from board_inv_layout_total [OF b1] obtain s2 where l: "layout_tray ?s1 = Inr s2" ..
  have f: "slots s2 = slots ?s1" "shuffled_tray s2 = t" "held_piece s2 = None" "\<not> complete s2"
    "win_timer s2 = 0" "map placed (pieces s2) = map placed (pieces ?s1)"
    using layout_tray_fields [OF l] by simp_all
  have ef: "end_frame ms t s = Inr (s2\<lparr>running := True\<rparr>)"
    using nr r1 l by (simp add: end_frame_def new_game_def reset_state_win_timer)
  have p1: "\<forall>p \<in> set (pieces ?s1). \<not> placed p \<and> p_image p = \<lparr>tile_of = p_index p, side = TILE_SIZE\<rparr>"
    by (auto simp: fresh_def)
  have "set (map placed (pieces s2)) \<subseteq> {False}" unfolding f(6) by (auto simp: fresh_def)
  then have p2: "\<forall>p \<in> set (pieces s2). \<not> placed p" by auto
  have sl: "\<forall>sl \<in> set (slots s2). \<not> filled sl" unfolding f(1) by auto
  have tset: "set t = {0..<COLS * ROWS}" using board_inv_tray_set [OF b1] by simp
  have len: "length (pieces s) = COLS * ROWS" using board_inv_length [OF b] by simp
  have all: "filter (\<lambda>i. \<not> placed (pieces ?s1 ! i)) (shuffled_tray ?s1) = t"
    using tset len by (auto simp: fresh_def filter_id_conv)
  have rc: "p_rect (pieces s2 ! (t ! n)) = tray_rect n \<and>
            p_image (pieces s2 ! (t ! n)) = \<lparr>tile_of = t ! n, side = tile_w\<rparr>" if "n < length t" for n
  proof -
    have d: "distinct (shuffled_tray ?s1)" using board_inv_tray_distinct [OF b1] .
    have "t ! n < COLS * ROWS" using tset that by (metis atLeastLessThan_iff nth_mem)
    then have "p_index (pieces ?s1 ! (t ! n)) = t ! n" using board_inv_index [OF b1] by blast
    with layout_tray_rects [OF l d, of n] that show ?thesis unfolding all by simp
  qed
  show ?thesis
    using r1 l ef p1 p2 sl f(2-5) rc by (intro exI [of _ ?s1] exI [of _ s2]) simp
qed

theorem restart_resets_witness:
  "reach demo_mid \<and>
   run_events [KEYDOWN K_r] demo_mid = Inr (demo_mid\<lparr>running := False\<rparr>) \<and>
   mset (rev scenario_tray) = mset (shuffled_tray (demo_mid\<lparr>running := False\<rparr>)) \<and>
   (\<exists>s'. end_frame 16 (rev scenario_tray) (demo_mid\<lparr>running := False\<rparr>) = Inr s' \<and>
      shuffled_tray s' = rev scenario_tray \<and> (\<forall>p \<in> set (pieces s'). \<not> placed p) \<and>
      (\<forall>sl \<in> set (slots s'). \<not> filled sl) \<and> held_piece s' = None \<and> \<not> complete s' \<and>
      win_timer s' = 0)"
proof -
  have e: "run_events [KEYDOWN K_r] demo_mid = Inr (demo_mid\<lparr>running := False\<rparr>)" by simp
  have "shuffled_tray demo_mid = scenario_tray" by code_simp
  then have m: "mset (rev scenario_tray) = mset (shuffled_tray (demo_mid\<lparr>running := False\<rparr>))"
    by simp
  from restart_resets [OF reach_demo_mid e m, of 16] obtain s1 s2 where
    "end_frame 16 (rev scenario_tray) (demo_mid\<lparr>running := False\<rparr>) = Inr (s2\<lparr>running := True\<rparr>)"
    "shuffled_tray s2 = rev scenario_tray" "\<forall>p \<in> set (pieces s2). \<not> placed p"
    "\<forall>sl \<in> set (slots s2). \<not> filled sl" "held_piece s2 = None" "\<not> complete s2" "win_timer s2 = 0"
    by blast
  then show ?thesis using reach_demo_mid e m by simp
qed

subsection \<open>Laying out the tray twice\<close>

text \<open>
  Claim C8: for every state on which the tray layout returns, a second layout right after
  it returns the same state, so every piece has the same rectangle both times. When the
  tray order has no repetition, the \<open>n\<close>-th unplaced piece of the tray order is at column
  \<open>n mod TRAY_COLS\<close> and row \<open>n div TRAY_COLS\<close>, with the tile width fixed by the panel width
  and the padding.
\<close>

theorem layout_tray_idempotent:
  assumes "layout_tray s = Inr s'"
  shows "layout_tray s' = Inr s' \<and>
    (distinct (shuffled_tray s) \<longrightarrow>
      (\<forall>n < length (filter (\<lambda>i. \<not> placed (pieces s ! i)) (shuffled_tray s)).
         p_rect (pieces s' ! (filter (\<lambda>i. \<not> placed (pieces s ! i)) (shuffled_tray s) ! n)) =
           \<lparr>left = TRAY_X + TRAY_PAD + int (n mod TRAY_COLS) * (tile_w + TRAY_PAD),
            top = TRAY_Y + 70 + int (n div TRAY_COLS) * (tile_w + TRAY_PAD),
            width = tile_w, height = tile_w\<rparr>))"
  using layout_tray_again [OF assms] layout_tray_rects [OF assms]
  by (simp add: tray_rect_def)

theorem layout_tray_idempotent_witness:
  "layout_tray demo_held = Inr demo_relaid \<and> layout_tray demo_relaid = Inr demo_relaid \<and>
   p_rect (pieces demo_held ! 4) = \<lparr>left = 22, top = 80, width = 160, height = 160\<rparr> \<and>
   p_rect (pieces demo_relaid ! 4) = \<lparr>left = 22, top = 80, width = 142, height = 142\<rparr>"
proof -
  have "board_inv demo_held" using reach_demo_held by (intro game_inv_board reach_game_inv)
  then have l: "layout_tray demo_held = Inr demo_relaid"
    unfolding demo_relaid_def by (intro projr_Inr board_inv_layout_total)
  have "p_rect (pieces demo_held ! 4) = \<lparr>left = 22, top = 80, width = 160, height = 160\<rparr>"
    "p_rect (pieces demo_relaid ! 4) = \<lparr>left = 22, top = 80, width = 142, height = 142\<rparr>"
    by code_simp+
  then show ?thesis using l layout_tray_idempotent [OF l] by simp
qed

subsection \<open>After completion\<close>

text \<open>
  Claim C9: once \<^verbatim>\<open>complete\<close> is true, a pointer-down event changes nothing at all, whatever
  the position and button; no event handler makes \<^verbatim>\<open>complete\<close> false again; and the end of
  a frame in which no restart was asked for only advances the win timer. So \<^verbatim>\<open>complete\<close>
  stays true until a restart.
\<close>

theorem complete_blocks_pick_up:
  assumes "complete s"
  shows "handle_event (MOUSEBUTTONDOWN pos button) s = Inr s \<and>
    (\<forall>e s'. handle_event e s = Inr s' \<longrightarrow> complete s') \<and>
    (running s \<longrightarrow> end_frame ms t s = Inr (s\<lparr>win_timer := win_timer s + ms\<rparr>))"
proof -
  have "complete s'" if "handle_event e s = Inr s'" for e s'
    using that assms
    by (cases e) (auto simp: mouse_down_def mouse_up_def mouse_motion_def
        split: if_splits option.splits)
  then show ?thesis
    using assms by (auto simp: mouse_down_def end_frame_def)
qed

theorem complete_blocks_pick_up_witness:
  "complete demo_won \<and> handle_event (MOUSEBUTTONDOWN (30, 90) 1) demo_won = Inr demo_won \<and>
   (\<exists>s'. handle_event (KEYDOWN K_r) demo_won = Inr s' \<and> complete s')"
proof -
  have c: "complete demo_won" by code_simp
  from complete_blocks_pick_up [OF c, of "(30, 90)" 1] c show ?thesis by simp
qed

subsection \<open>Completion and dragging exclude each other\<close>

text \<open>
  Claim C10: in every reachable state, \<^verbatim>\<open>complete\<close> implies that no piece is held. Hence
  whenever a piece is held \<^verbatim>\<open>complete\<close> is false, and a release of button 1 passes the
  guard of line 336 and resolves the drop: the handler returns a state with nothing held.
\<close>

theorem complete_nothing_held:
  assumes "reach s"
  shows "(complete s \<longrightarrow> held_piece s = None) \<and>
    (held_piece s \<noteq> None \<longrightarrow>
       \<not> complete s \<and> (\<exists>s'. handle_event (MOUSEBUTTONUP pos 1) s = Inr s' \<and> held_piece s' = None))"
proof -
  have g: "game_inv s" using assms by (rule reach_game_inv)
  have "\<exists>s'. handle_event (MOUSEBUTTONUP pos 1) s = Inr s' \<and> held_piece s' = None"
    if "held_piece s = Some h" for h
  proof -
    from mouse_up_outcome [OF g that, of pos] obtain s2 where
      l: "layout_tray (dropped h pos s) = Inr s2" and m: "mouse_up pos s = Inr (win_check s2)"
      by blast
    have "held_piece (win_check s2) = None"
      using layout_tray_fields [OF l] by (simp add: win_check_fields dropped_def)
    with m show ?thesis by simp
  qed
  then show ?thesis using held_not_complete [OF g] by (cases "held_piece s") auto
qed

theorem complete_nothing_held_witness:
  "reach demo_won \<and> complete demo_won \<and> held_piece demo_won = None \<and>
   reach demo_held \<and> held_piece demo_held \<noteq> None \<and> \<not> complete demo_held"
proof -
  have "complete demo_won" "held_piece demo_held \<noteq> None" by code_simp+
  then show ?thesis
    using complete_nothing_held [OF reach_demo_won] complete_nothing_held [OF reach_demo_held]
      reach_demo_won reach_demo_held by simp
qed

end
